theory Spec2Isabelle
  imports Main "HOL-Library.AList" "HOL-Library.Sublist"
begin

section \<open>Strings\<close>

text \<open>
  A JavaScript string is modelled as a \<^typ>\<open>string\<close>, one \<^typ>\<open>char\<close> per code unit; the
  model covers the code units below 256. On these, the white space that \<open>String.trim\<close>
  removes and that \<open>\s\<close> matches is TAB, LF, VT, FF, CR, SPACE and NBSP.
\<close>

definition is_space :: "char \<Rightarrow> bool" where
  "is_space c = (c = CHR 0x09 \<or> c = CHR 0x0A \<or> c = CHR 0x0B \<or> c = CHR 0x0C
      \<or> c = CHR 0x0D \<or> c = CHR 0x20 \<or> c = CHR 0xA0)"

text \<open>\<open>s.trim()\<close>\<close>

definition trim :: "string \<Rightarrow> string" where
  "trim s = rev (dropWhile is_space (rev (dropWhile is_space s)))"

text \<open>
  \<open>s.split(/\r?\n/)\<close>: the separators are the leftmost matches of an optional CR followed
  by LF; a CR that no LF follows is an ordinary character. The result is never empty.
\<close>

fun split_lines :: "string \<Rightarrow> string list" where
  "split_lines [] = [[]]"
| "split_lines (c # cs) =
     (if c = CHR 0x0A then [] # split_lines cs
      else if c = CHR 0x0D \<and> take 1 cs = [CHR 0x0A] then [] # split_lines (drop 1 cs)
      else (case split_lines cs of [] \<Rightarrow> [[c]] | l # ls \<Rightarrow> (c # l) # ls))"

text \<open>\<open>parts.join(sep)\<close>, and \<open>lines.join("\n")\<close>\<close>

fun join_with :: "string \<Rightarrow> string list \<Rightarrow> string" where
  "join_with sep [] = []"
| "join_with sep [l] = l"
| "join_with sep (l # ls) = l @ sep @ join_with sep ls"

definition join_lines :: "string list \<Rightarrow> string" where
  "join_lines ls = join_with [CHR 0x0A] ls"

text \<open>\<open>s.split(sep)\<close> for a separator of one character\<close>

fun split_on :: "char \<Rightarrow> string \<Rightarrow> string list" where
  "split_on d [] = [[]]"
| "split_on d (c # cs) =
     (if c = d then [] # split_on d cs
      else (case split_on d cs of [] \<Rightarrow> [[c]] | s # ss \<Rightarrow> (c # s) # ss))"

text \<open>\<open>s.replace(/\\/g, "/")\<close>\<close>

definition backslashes_to_slashes :: "string \<Rightarrow> string" where
  "backslashes_to_slashes s = map (\<lambda>c. if c = CHR 0x5C then CHR ''/'' else c) s"

text \<open>
  \<open>s.replace(/\/+/g, "/")\<close>: every maximal run of slashes becomes one slash, that is,
  a slash that another slash follows is dropped.
\<close>

fun collapse_slashes :: "string \<Rightarrow> string" where
  "collapse_slashes (c # d # cs) =
     (if c = CHR ''/'' \<and> d = CHR ''/'' then collapse_slashes (d # cs)
      else c # collapse_slashes (d # cs))"
| "collapse_slashes cs = cs"

text \<open>
  \<open>s.replace(/^\/|\/$/g, "")\<close>: one slash is removed at the start, and one at the end of
  what is left.
\<close>

definition strip_edge_slashes :: "string \<Rightarrow> string" where
  "strip_edge_slashes s =
     (let t = (case s of [] \<Rightarrow> [] | c # cs \<Rightarrow> if c = CHR ''/'' then cs else s)
      in if t \<noteq> [] \<and> last t = CHR ''/'' then butlast t else t)"

text \<open>\<open>s.replace(/^\/+/, "")\<close>\<close>

definition strip_leading_slashes :: "string \<Rightarrow> string" where
  "strip_leading_slashes s = dropWhile (\<lambda>c. c = CHR ''/'') s"

section \<open>Errors\<close>

text \<open>
  A thrown exception is a value. \<open>Error msg\<close> is JavaScript's \<open>new Error(msg)\<close>;
  \<open>SystemError\<close> is the error of a failed file-system call, with its \<open>code\<close>, its
  \<open>syscall\<close> and its \<open>path\<close>, which the error of a failed \<open>read\<close> does not have.
\<close>

datatype errno = ENOENT | EISDIR | ENOTDIR | EEXIST | EACCES

datatype syscall = Open | Read | Mkdir | Unlink | Scandir

datatype error = Error string | SystemError errno syscall "string option"

section \<open>CategoryPath (domain/note.ts)\<close>

datatype CategoryPath = CategoryPath (toString: string)

text \<open>The local \<open>cleaned\<close> of \<open>CategoryPath.fromRaw\<close>.\<close>

definition cleaned :: "string \<Rightarrow> string" where
  "cleaned raw = strip_edge_slashes (collapse_slashes (backslashes_to_slashes (trim raw)))"

definition fromRaw :: "string \<Rightarrow> error + CategoryPath" where
  "fromRaw raw =
     (if cleaned raw = [] then Inl (Error ''CategoryPath cannot be empty'')
      else Inr (CategoryPath (cleaned raw)))"

definition root :: CategoryPath where
  "root = CategoryPath []"

definition isRoot :: "CategoryPath \<Rightarrow> bool" where
  "isRoot c = (toString c = [])"

section \<open>The path module of Node.js (POSIX)\<close>

text \<open>
  The functions of \<open>node:path\<close> that the workspace calls, after their documentation on a
  POSIX system. A path is taken apart at its slashes; \<open>normalize\<close> drops empty and \<open>.\<close>
  segments and resolves \<open>..\<close> against the segment before it.
\<close>

fun normalizeString :: "bool \<Rightarrow> string list \<Rightarrow> string list \<Rightarrow> string list" where
  "normalizeString allowAboveRoot [] res = res"
| "normalizeString allowAboveRoot (seg # segs) res =
     (if seg = [] \<or> seg = ''.'' then normalizeString allowAboveRoot segs res
      else if seg = ''..'' then
        (if res \<noteq> [] \<and> last res \<noteq> ''..''
         then normalizeString allowAboveRoot segs (butlast res)
         else if allowAboveRoot then normalizeString allowAboveRoot segs (res @ [''..''])
         else normalizeString allowAboveRoot segs res)
      else normalizeString allowAboveRoot segs (res @ [seg]))"

definition path_normalize :: "string \<Rightarrow> string" where
  "path_normalize p =
     (if p = [] then ''.''
      else let isAbsolute = (hd p = CHR ''/'');
               trailingSeparator = (last p = CHR ''/'');
               q = join_with ''/'' (normalizeString (\<not> isAbsolute) (split_on CHR ''/'' p) [])
           in if q = [] then (if isAbsolute then ''/'' else if trailingSeparator then ''./'' else ''.'')
              else (if isAbsolute then ''/'' else []) @ q @ (if trailingSeparator then ''/'' else []))"

definition path_join :: "string list \<Rightarrow> string" where
  "path_join args =
     (let parts = filter (\<lambda>a. a \<noteq> []) args
      in if parts = [] then ''.'' else path_normalize (join_with ''/'' parts))"

text \<open>\<open>path.basename(p)\<close>: the last segment, trailing slashes ignored.\<close>

definition path_basename :: "string \<Rightarrow> string" where
  "path_basename p =
     rev (takeWhile (\<lambda>c. c \<noteq> CHR ''/'') (dropWhile (\<lambda>c. c = CHR ''/'') (rev p)))"

text \<open>
  \<open>path.extname(p)\<close>: from the last dot of the base name to its end; empty when the base
  name has no dot, when its only dot is its first character, and for \<open>..\<close>.
\<close>

definition path_extname :: "string \<Rightarrow> string" where
  "path_extname p =
     (let b = path_basename p;
          e = rev (takeWhile (\<lambda>c. c \<noteq> CHR ''.'') (rev b))
      in if CHR ''.'' \<notin> set b then []
         else if Suc (length e) = length b then []
         else if b = ''..'' then []
         else CHR ''.'' # e)"

text \<open>
  \<open>path.basename(p, suffix)\<close>, after Node's algorithm. A suffix that is empty or
  longer than the path is ignored; a suffix that is the whole path gives the empty
  string. Otherwise the suffix is compared with the base name from the end: it is
  removed when it is a proper end of the base name; a path of slashes only is returned
  whole; and when the base name is a proper end of the suffix, the base name is
  returned with the slashes that follow it.
\<close>

definition path_basename_suffix :: "string \<Rightarrow> string \<Rightarrow> string" where
  "path_basename_suffix p ext =
     (let b = path_basename p
      in if ext = [] \<or> length p < length ext then b
         else if ext = p then []
         else if b = [] then p
         else if length ext < length b \<and> drop (length b - length ext) b = ext
           then take (length b - length ext) b
         else if length b < length ext \<and> drop (length ext - length b) ext = b
           then b @ takeWhile (\<lambda>c. c = CHR ''/'') (rev p)
         else b)"

text \<open>
  \<open>path.dirname(p)\<close>: the path up to the slash before the last segment; that slash is
  looked for from the second character on.
\<close>

definition path_dirname :: "string \<Rightarrow> string" where
  "path_dirname p =
     (if p = [] then ''.''
      else let hasRoot = (hd p = CHR ''/'');
               r = dropWhile (\<lambda>c. c \<noteq> CHR ''/'') (dropWhile (\<lambda>c. c = CHR ''/'') (rev (tl p)))
           in if r = [] then (if hasRoot then ''/'' else ''.'')
              else if hasRoot \<and> length r = 1 then ''//''
              else take (length r) p)"

section \<open>Note files (adapters/fs/FsWorkspace.ts)\<close>

text \<open>
  The frontmatter is a plain JavaScript object with string values. It is modelled as the
  list of its own properties in the order in which \<open>Object.entries\<close> gives them: the
  keys that are array indices (canonical decimal numerals below \<open>2^32 - 1\<close>) in
  ascending numeric order, then the other keys in the order of their creation.
\<close>

definition is_digit :: "char \<Rightarrow> bool" where
  "is_digit c = (48 \<le> (of_char c :: nat) \<and> (of_char c :: nat) \<le> 57)"

definition decimal_value :: "string \<Rightarrow> nat" where
  "decimal_value k = foldl (\<lambda>n c. 10 * n + (of_char c - 48)) 0 k"

definition array_index :: "string \<Rightarrow> nat option" where
  "array_index k =
     (if k \<noteq> [] \<and> list_all is_digit k \<and> (k = ''0'' \<or> hd k \<noteq> CHR ''0'')
         \<and> decimal_value k < 4294967295
      then Some (decimal_value k)
      else None)"

text \<open>A new property with the array index \<open>i\<close> goes before the first property that is not a smaller index.\<close>

fun insert_index ::
  "nat \<Rightarrow> string \<times> string \<Rightarrow> (string \<times> string) list \<Rightarrow> (string \<times> string) list" where
  "insert_index i e [] = [e]"
| "insert_index i e (e' # es) =
     (case array_index (fst e') of
        Some j \<Rightarrow> if j < i then e' # insert_index i e es else e # e' # es
      | None \<Rightarrow> e # e' # es)"

text \<open>
  \<open>obj[key] = val\<close>: an own property keeps its place and takes the value. Otherwise the
  key \<open>__proto__\<close> reaches the setter of \<open>Object.prototype\<close>, which ignores a string, so
  nothing is stored; any other key becomes a new own property.
\<close>

definition assign :: "string \<Rightarrow> string \<Rightarrow> (string \<times> string) list \<Rightarrow> (string \<times> string) list" where
  "assign key val obj =
     (if key \<in> set (map fst obj) then AList.update key val obj
      else if key = ''__proto__'' then obj
      else case array_index key of
             Some i \<Rightarrow> insert_index i (key, val) obj
           | None \<Rightarrow> obj @ [(key, val)])"

text \<open>
  \<open>Object.entries(obj)\<close>: the array indices in ascending order, then the other keys as
  they stand.
\<close>

definition Object_entries :: "(string \<times> string) list \<Rightarrow> (string \<times> string) list" where
  "Object_entries obj =
     sort_key (\<lambda>e. case array_index (fst e) of Some i \<Rightarrow> i | None \<Rightarrow> 0)
       (filter (\<lambda>e. array_index (fst e) \<noteq> None) obj)
     @ filter (\<lambda>e. array_index (fst e) = None) obj"

record ParsedNoteFile =
  frontmatter :: "(string \<times> string) list"
  body :: string

text \<open>
  The loop of \<open>parseNoteFile\<close>. Its index \<open>i\<close> is the list of the lines from \<open>i\<close> on, and the
  result is the frontmatter with \<open>lines.slice(i)\<close> as the loop leaves it.
\<close>

fun parse_loop ::
  "string list \<Rightarrow> (string \<times> string) list \<Rightarrow> (string \<times> string) list \<times> string list" where
  "parse_loop [] fm = (fm, [])"
| "parse_loop (line # rest) fm =
     (if line = [] then parse_loop rest fm
      else if trim line = ''---'' then (fm, rest)
      else if CHR '':'' \<notin> set line then parse_loop rest fm
      else let key = trim (takeWhile (\<lambda>c. c \<noteq> CHR '':'') line);
               val = trim (drop 1 (dropWhile (\<lambda>c. c \<noteq> CHR '':'') line))
           in if key \<noteq> [] then parse_loop rest (assign key val fm)
              else parse_loop rest fm)"

definition parseNoteFile :: "string \<Rightarrow> ParsedNoteFile" where
  "parseNoteFile raw =
     (case split_lines raw of
        [] \<Rightarrow> \<lparr>frontmatter = [], body = raw\<rparr>
      | first # lines \<Rightarrow>
          if trim first \<noteq> ''---'' then \<lparr>frontmatter = [], body = raw\<rparr>
          else let (fm, rest) = parse_loop lines []
               in \<lparr>frontmatter = fm, body = join_lines rest\<rparr>)"

definition serializeNoteFile :: "ParsedNoteFile \<Rightarrow> string" where
  "serializeNoteFile parsed =
     (let entries = Object_entries (frontmatter parsed)
      in if entries = [] then body parsed
         else join_lines ([''---''] @ map (\<lambda>(k, v). k @ '': '' @ v) entries
                @ [''---'', [], body parsed]))"

text \<open>
  \<open>deriveTitle\<close>. \<open>h1.replace(/^#\s*/, "")\<close> removes a \<open>#\<close> that is the first character
  of the line, with the white space after it.
\<close>

definition strip_heading_marker :: "string \<Rightarrow> string" where
  "strip_heading_marker h1 =
     (case h1 of [] \<Rightarrow> [] | c # cs \<Rightarrow> if c = CHR ''#'' then dropWhile is_space cs else h1)"

definition deriveTitle :: "string \<Rightarrow> string \<Rightarrow> string" where
  "deriveTitle relativePath body' =
     (case find (\<lambda>line. prefix ''# '' (trim line)) (split_lines body') of
        Some h1 \<Rightarrow>
          if h1 \<noteq> [] then
            (let t = trim (strip_heading_marker h1)
             in if t \<noteq> [] then t else path_basename relativePath)
          else path_basename_suffix relativePath (path_extname relativePath)
      | None \<Rightarrow> path_basename_suffix relativePath (path_extname relativePath))"

section \<open>The file system\<close>

text \<open>
  The disk is a tree of directories and files, a directory being the list of its entries
  in the order in which \<open>readdir\<close> gives them. A path is resolved segment by segment from
  the root, or from the working directory when it does not start with a slash. A call
  that the system refuses (permissions, a failing device) is listed in \<open>denied\<close> and fails
  with \<open>EACCES\<close>, whatever the tree holds.
\<close>

datatype node = File string | Dir "(string \<times> node) list"

record filesystem =
  tree :: "(string \<times> node) list"
  cwd :: "string list"
  denied :: "(syscall \<times> string) set"

definition resolve :: "filesystem \<Rightarrow> string \<Rightarrow> string list" where
  "resolve fs p =
     normalizeString False (split_on CHR ''/'' p) (if take 1 p = ''/'' then [] else cwd fs)"

definition trailing_slash :: "string \<Rightarrow> bool" where
  "trailing_slash p = (p \<noteq> [] \<and> last p = CHR ''/'')"

fun lookup :: "(string \<times> node) list \<Rightarrow> string list \<Rightarrow> node option" where
  "lookup es [] = Some (Dir es)"
| "lookup es (s # ss) =
     (case map_of es s of
        None \<Rightarrow> None
      | Some (File c) \<Rightarrow> if ss = [] then Some (File c) else None
      | Some (Dir es') \<Rightarrow> lookup es' ss)"

fun put :: "(string \<times> node) list \<Rightarrow> string list \<Rightarrow> node \<Rightarrow> (string \<times> node) list" where
  "put es [] n = es"
| "put es [s] n = AList.update s n es"
| "put es (s # ss) n =
     (case map_of es s of
        Some (Dir es') \<Rightarrow> AList.update s (Dir (put es' ss n)) es
      | _ \<Rightarrow> es)"

fun remove :: "(string \<times> node) list \<Rightarrow> string list \<Rightarrow> (string \<times> node) list" where
  "remove es [] = es"
| "remove es [s] = AList.delete s es"
| "remove es (s # ss) =
     (case map_of es s of
        Some (Dir es') \<Rightarrow> AList.update s (Dir (remove es' ss)) es
      | _ \<Rightarrow> es)"

text \<open>
  Creating a directory with the directories above it. A file in the way is an error:
  \<open>EEXIST\<close> at the last name of the path, \<open>ENOTDIR\<close> before it.
\<close>

fun mkdirs :: "(string \<times> node) list \<Rightarrow> string list \<Rightarrow> errno + (string \<times> node) list" where
  "mkdirs es [] = Inr es"
| "mkdirs es (s # ss) =
     (case map_of es s of
        None \<Rightarrow> (case mkdirs [] ss of Inl e \<Rightarrow> Inl e | Inr es' \<Rightarrow> Inr (es @ [(s, Dir es')]))
      | Some (File c) \<Rightarrow> Inl (if ss = [] then EEXIST else ENOTDIR)
      | Some (Dir es') \<Rightarrow>
          (case mkdirs es' ss of Inl e \<Rightarrow> Inl e
           | Inr es'' \<Rightarrow> Inr (AList.update s (Dir es'') es)))"

text \<open>
  The code of a path at which \<open>lookup\<close> finds nothing: \<open>ENOTDIR\<close> when a file stands
  where the path goes on, \<open>ENOENT\<close> when a name is missing.
\<close>

fun lookup_errno :: "(string \<times> node) list \<Rightarrow> string list \<Rightarrow> errno" where
  "lookup_errno es [] = ENOENT"
| "lookup_errno es (s # ss) =
     (case map_of es s of
        None \<Rightarrow> ENOENT
      | Some (File c) \<Rightarrow> ENOTDIR
      | Some (Dir es') \<Rightarrow> lookup_errno es' ss)"

text \<open>
  \<open>fs.readFile(p, "utf8")\<close>: the file is opened and read; a directory can be opened, and
  the read of it fails.
\<close>

definition readFile :: "filesystem \<Rightarrow> string \<Rightarrow> error + string" where
  "readFile fs p =
     (if (Open, p) \<in> denied fs then Inl (SystemError EACCES Open (Some p))
      else if p = [] then Inl (SystemError ENOENT Open (Some p))
      else case lookup (tree fs) (resolve fs p) of
             None \<Rightarrow> Inl (SystemError (lookup_errno (tree fs) (resolve fs p)) Open (Some p))
           | Some (Dir es) \<Rightarrow> Inl (SystemError EISDIR Read None)
           | Some (File c) \<Rightarrow>
               if trailing_slash p then Inl (SystemError ENOTDIR Open (Some p)) else Inr c)"

text \<open>\<open>fs.writeFile(p, content, "utf8")\<close>: the file is created or replaced in a directory that exists.\<close>

definition writeFile :: "filesystem \<Rightarrow> string \<Rightarrow> string \<Rightarrow> error + filesystem" where
  "writeFile fs p content' =
     (if (Open, p) \<in> denied fs then Inl (SystemError EACCES Open (Some p))
      else if p = [] then Inl (SystemError ENOENT Open (Some p))
      else if resolve fs p = [] then Inl (SystemError EISDIR Open (Some p))
      else case lookup (tree fs) (butlast (resolve fs p)) of
             None \<Rightarrow>
               Inl (SystemError (lookup_errno (tree fs) (butlast (resolve fs p))) Open (Some p))
           | Some (File c) \<Rightarrow> Inl (SystemError ENOTDIR Open (Some p))
           | Some (Dir es) \<Rightarrow>
               (case lookup (tree fs) (resolve fs p) of
                  Some (Dir es') \<Rightarrow> Inl (SystemError EISDIR Open (Some p))
                | Some (File c) \<Rightarrow>
                    if trailing_slash p then Inl (SystemError ENOTDIR Open (Some p))
                    else Inr (fs\<lparr>tree := put (tree fs) (resolve fs p) (File content')\<rparr>)
                | None \<Rightarrow>
                    if trailing_slash p then Inl (SystemError EISDIR Open (Some p))
                    else Inr (fs\<lparr>tree := put (tree fs) (resolve fs p) (File content')\<rparr>)))"

text \<open>\<open>fs.mkdir(p, { recursive: true })\<close>\<close>

definition mkdir :: "filesystem \<Rightarrow> string \<Rightarrow> error + filesystem" where
  "mkdir fs p =
     (if (Mkdir, p) \<in> denied fs then Inl (SystemError EACCES Mkdir (Some p))
      else if p = [] then Inl (SystemError ENOENT Mkdir (Some p))
      else case mkdirs (tree fs) (resolve fs p) of
             Inl code \<Rightarrow> Inl (SystemError code Mkdir (Some p))
           | Inr es \<Rightarrow> Inr (fs\<lparr>tree := es\<rparr>))"

text \<open>\<open>fs.unlink(p)\<close>\<close>

definition unlink :: "filesystem \<Rightarrow> string \<Rightarrow> error + filesystem" where
  "unlink fs p =
     (if (Unlink, p) \<in> denied fs then Inl (SystemError EACCES Unlink (Some p))
      else if p = [] then Inl (SystemError ENOENT Unlink (Some p))
      else case lookup (tree fs) (resolve fs p) of
             None \<Rightarrow> Inl (SystemError (lookup_errno (tree fs) (resolve fs p)) Unlink (Some p))
           | Some (Dir es) \<Rightarrow> Inl (SystemError EISDIR Unlink (Some p))
           | Some (File c) \<Rightarrow>
               if trailing_slash p then Inl (SystemError ENOTDIR Unlink (Some p))
               else Inr (fs\<lparr>tree := remove (tree fs) (resolve fs p)\<rparr>))"

text \<open>
  \<open>fs.readdir(p, { withFileTypes: true })\<close>: every entry with its name and the answer of
  its \<open>isDirectory()\<close>.
\<close>

definition readdir :: "filesystem \<Rightarrow> string \<Rightarrow> error + (string \<times> bool) list" where
  "readdir fs p =
     (if (Scandir, p) \<in> denied fs then Inl (SystemError EACCES Scandir (Some p))
      else if p = [] then Inl (SystemError ENOENT Scandir (Some p))
      else case lookup (tree fs) (resolve fs p) of
             None \<Rightarrow> Inl (SystemError (lookup_errno (tree fs) (resolve fs p)) Scandir (Some p))
           | Some (File c) \<Rightarrow> Inl (SystemError ENOTDIR Scandir (Some p))
           | Some (Dir es) \<Rightarrow>
               Inr (map (\<lambda>(name, n). (name, case n of Dir es' \<Rightarrow> True | File c \<Rightarrow> False)) es))"

section \<open>FsWorkspace (adapters/fs/FsWorkspace.ts)\<close>

record Note =
  id' :: string
  title :: string
  content :: string
  category :: "CategoryPath option"
  path :: string

text \<open>The constructor argument \<open>workspaceRoot\<close> is the first argument of every method.\<close>

definition resolveAbsolute :: "string \<Rightarrow> string \<Rightarrow> string" where
  "resolveAbsolute workspaceRoot relativePath =
     path_join [workspaceRoot, strip_leading_slashes (backslashes_to_slashes relativePath)]"

definition deriveCategoryFromPath :: "string \<Rightarrow> error + CategoryPath option" where
  "deriveCategoryFromPath relativePath =
     (let dir = backslashes_to_slashes (path_dirname relativePath)
      in if dir = ''.'' \<or> dir = [] then Inr None
         else case fromRaw dir of Inl e \<Rightarrow> Inl e | Inr c \<Rightarrow> Inr (Some c))"

definition loadNote :: "string \<Rightarrow> string \<Rightarrow> filesystem \<Rightarrow> error + Note" where
  "loadNote workspaceRoot relativePath fs =
     (case readFile fs (resolveAbsolute workspaceRoot relativePath) of
        Inl e \<Rightarrow> Inl e
      | Inr raw \<Rightarrow>
          let parsed = parseNoteFile raw;
              categoryFromFm = map_of (frontmatter parsed) ''category'';
              category' =
                (case categoryFromFm of
                   None \<Rightarrow> deriveCategoryFromPath relativePath
                 | Some c \<Rightarrow>
                     if c \<noteq> [] \<and> trim c \<noteq> []
                     then (case fromRaw c of Inl e \<Rightarrow> Inl e | Inr cp \<Rightarrow> Inr (Some cp))
                     else deriveCategoryFromPath relativePath)
          in case category' of
               Inl e \<Rightarrow> Inl e
             | Inr cat \<Rightarrow>
                 Inr \<lparr>id' = relativePath, title = deriveTitle relativePath (body parsed),
                      content = body parsed, category = cat, path = relativePath\<rparr>)"

text \<open>\<open>categories.add(x)\<close> on a JavaScript \<open>Set\<close>, which keeps the order of insertion.\<close>

definition set_add :: "string \<Rightarrow> string list \<Rightarrow> string list" where
  "set_add x xs = (if x \<in> set xs then xs else xs @ [x])"

text \<open>
  The recursive \<open>walk\<close> of \<open>listCategories\<close>. Nothing in the code bounds its depth, so the
  model counts it: \<open>walk n\<close> gives \<open>None\<close> when the recursion would go deeper than \<open>n\<close>.
  \<open>walk_entries\<close> is the \<open>for\<close> loop over the entries of one directory.
\<close>

fun walk :: "nat \<Rightarrow> string \<Rightarrow> filesystem \<Rightarrow> string \<Rightarrow> string list \<Rightarrow> (error + string list) option"
  and walk_entries :: "nat \<Rightarrow> string \<Rightarrow> filesystem \<Rightarrow> string \<Rightarrow> (string \<times> bool) list
    \<Rightarrow> string list \<Rightarrow> (error + string list) option" where
  "walk 0 workspaceRoot fs currentRel categories = None"
| "walk (Suc n) workspaceRoot fs currentRel categories =
     (case readdir fs (resolveAbsolute workspaceRoot currentRel) of
        Inl e \<Rightarrow> Some (Inl e)
      | Inr entries \<Rightarrow> walk_entries n workspaceRoot fs currentRel entries categories)"
| "walk_entries n workspaceRoot fs currentRel [] categories = Some (Inr categories)"
| "walk_entries n workspaceRoot fs currentRel (entry # entries) categories =
     (let entryRel = strip_leading_slashes
            (backslashes_to_slashes (path_join [currentRel, fst entry]))
      in if snd entry then
           (case walk n workspaceRoot fs entryRel (set_add entryRel categories) of
              None \<Rightarrow> None
            | Some (Inl e) \<Rightarrow> Some (Inl e)
            | Some (Inr categories') \<Rightarrow>
                walk_entries n workspaceRoot fs currentRel entries categories')
         else walk_entries n workspaceRoot fs currentRel entries categories)"

text \<open>The final loop of \<open>listCategories\<close>; the first \<open>fromRaw\<close> that throws ends it.\<close>

fun to_category_paths :: "string list \<Rightarrow> error + CategoryPath list" where
  "to_category_paths [] = Inr []"
| "to_category_paths (cat # cats) =
     (if cat = ''.'' \<or> cat = [] then to_category_paths cats
      else case fromRaw cat of
             Inl e \<Rightarrow> Inl e
           | Inr c \<Rightarrow> (case to_category_paths cats of Inl e \<Rightarrow> Inl e | Inr cs \<Rightarrow> Inr (c # cs)))"

definition listCategories :: "nat \<Rightarrow> string \<Rightarrow> filesystem \<Rightarrow> (error + CategoryPath list) option" where
  "listCategories n workspaceRoot fs =
     (case walk n workspaceRoot fs ''.'' [] of
        None \<Rightarrow> None
      | Some (Inl e) \<Rightarrow> Some (Inl e)
      | Some (Inr categories) \<Rightarrow> Some (to_category_paths categories))"

text \<open>
  \<open>applyCategoryChange\<close> returns the note or the error, and the file system as the call
  leaves it in either case.
\<close>

definition applyCategoryChange ::
  "string \<Rightarrow> string \<Rightarrow> CategoryPath \<Rightarrow> filesystem \<Rightarrow> (error + Note) \<times> filesystem" where
  "applyCategoryChange workspaceRoot notePath newCategory fs =
     (let currentRel = strip_leading_slashes (backslashes_to_slashes notePath);
          absOld = resolveAbsolute workspaceRoot currentRel
      in case readFile fs absOld of
           Inl e \<Rightarrow> (Inl e, fs)
         | Inr raw \<Rightarrow>
             let parsed = parseNoteFile raw;
                 parsed' = parsed\<lparr>frontmatter :=
                   assign ''category'' (toString newCategory) (frontmatter parsed)\<rparr>;
                 newContent = serializeNoteFile parsed';
                 fileName = path_basename currentRel;
                 newRel = strip_leading_slashes
                   (backslashes_to_slashes (path_join [toString newCategory, fileName]));
                 absNew = resolveAbsolute workspaceRoot newRel
             in case mkdir fs (path_dirname absNew) of
                  Inl e \<Rightarrow> (Inl e, fs)
                | Inr fs1 \<Rightarrow>
                    (case writeFile fs1 absNew newContent of
                       Inl e \<Rightarrow> (Inl e, fs1)
                     | Inr fs2 \<Rightarrow>
                         (case (if absNew \<noteq> absOld then unlink fs2 absOld else Inr fs2) of
                            Inl e \<Rightarrow> (Inl e, fs2)
                          | Inr fs3 \<Rightarrow> (loadNote workspaceRoot newRel fs3, fs3))))"

section \<open>CategorizeNoteUseCase (application/CategorizeNoteUseCase.ts)\<close>

text \<open>
  The categorizer is a parameter: any function from the note and the available
  categories to a decision or an error. The \<open>confidence\<close> of a decision is not read by the
  use case and is left out, as are the calls of the logger, which return nothing and
  touch neither the notes nor the result.
\<close>

record CategorizationDecision =
  suggestedCategory :: CategoryPath
  reasoning :: string

record CategorizeNoteOutput =
  originalNote :: Note
  updatedNote :: Note
  wasMoved :: bool
  reasoning' :: string

definition execute ::
  "nat \<Rightarrow> string \<Rightarrow> (Note \<Rightarrow> CategoryPath list \<Rightarrow> error + CategorizationDecision)
    \<Rightarrow> string \<Rightarrow> filesystem \<Rightarrow> ((error + CategorizeNoteOutput) \<times> filesystem) option" where
  "execute n workspaceRoot suggestCategory relativePath fs =
     (case loadNote workspaceRoot relativePath fs of
        Inl e \<Rightarrow> Some (Inl e, fs)
      | Inr original \<Rightarrow>
          (case listCategories n workspaceRoot fs of
             None \<Rightarrow> None
           | Some (Inl e) \<Rightarrow> Some (Inl e, fs)
           | Some (Inr availableCategories) \<Rightarrow>
               (case suggestCategory original availableCategories of
                  Inl e \<Rightarrow> Some (Inl e, fs)
                | Inr decision \<Rightarrow>
                    let currentCategoryStr =
                          (case category original of None \<Rightarrow> [] | Some c \<Rightarrow> toString c);
                        suggestedCategoryStr = toString (suggestedCategory decision)
                    in if currentCategoryStr = suggestedCategoryStr then
                         Some (Inr \<lparr>originalNote = original, updatedNote = original,
                                    wasMoved = False, reasoning' = reasoning decision\<rparr>, fs)
                       else
                         (case applyCategoryChange workspaceRoot relativePath
                                 (suggestedCategory decision) fs of
                            (Inl e, fs') \<Rightarrow> Some (Inl e, fs')
                          | (Inr updated, fs') \<Rightarrow>
                              Some (Inr \<lparr>originalNote = original, updatedNote = updated,
                                         wasMoved = True, reasoning' = reasoning decision\<rparr>,
                                    fs')))))"

section \<open>Notions for the statements\<close>

text \<open>
  The normalization of a category path in the words of the specification: convert
  backslashes to forward slashes, collapse repeated slashes to one, strip leading and
  trailing slashes, trim surrounding white space.
\<close>

definition spec_normalized :: "string \<Rightarrow> string" where
  "spec_normalized raw =
     trim (strip_edge_slashes (collapse_slashes (backslashes_to_slashes raw)))"

text \<open>Two slashes in a row somewhere in the string.\<close>

fun double_slash :: "string \<Rightarrow> bool" where
  "double_slash (c # d # cs) = (c = CHR ''/'' \<and> d = CHR ''/'' \<or> double_slash (d # cs))"
| "double_slash cs = False"

text \<open>A line without its final CR.\<close>

definition chomp :: "string \<Rightarrow> string" where
  "chomp l = (if l \<noteq> [] \<and> last l = CHR 0x0D then butlast l else l)"


text \<open>
  What a header line contributes: a line with a colon whose part before the first colon
  is not blank gives the entry of the trimmed parts before and after that colon.
\<close>

definition header_entry :: "string \<Rightarrow> (string \<times> string) option" where
  "header_entry line =
     (if CHR '':'' \<in> set line \<and> trim (takeWhile (\<lambda>c. c \<noteq> CHR '':'') line) \<noteq> []
      then Some (trim (takeWhile (\<lambda>c. c \<noteq> CHR '':'') line),
                 trim (drop 1 (dropWhile (\<lambda>c. c \<noteq> CHR '':'') line)))
      else None)"

text \<open>
  The lists that stand for an object: no key twice, the array indices first and in
  ascending order.
\<close>

definition index_before :: "string \<times> string \<Rightarrow> string \<times> string \<Rightarrow> bool" where
  "index_before e e' =
     (case array_index (fst e) of
        None \<Rightarrow> array_index (fst e') = None
      | Some i \<Rightarrow> (case array_index (fst e') of None \<Rightarrow> True | Some j \<Rightarrow> i < j))"

definition object_ok :: "(string \<times> string) list \<Rightarrow> bool" where
  "object_ok obj = (distinct (map fst obj) \<and> sorted_wrt index_before obj)"

text \<open>
  The header mappings that a round trip can keep: an object whose keys are not empty,
  have no colon and are not \<open>__proto__\<close>, keys and values without white space at their
  ends and without a line feed.
\<close>

definition header_ok :: "(string \<times> string) list \<Rightarrow> bool" where
  "header_ok H =
     (object_ok H \<and>
      list_all (\<lambda>(k, v). k \<noteq> [] \<and> k \<noteq> ''__proto__'' \<and> trim k = k \<and> trim v = v
                  \<and> CHR '':'' \<notin> set k \<and> CHR 0x0A \<notin> set k \<and> CHR 0x0A \<notin> set v) H)"

text \<open>A segment that names an entry: not empty, not a dot name, without a slash.\<close>

definition clean_seg :: "string \<Rightarrow> bool" where
  "clean_seg s = (s \<noteq> [] \<and> s \<noteq> ''.'' \<and> s \<noteq> ''..'' \<and> CHR ''/'' \<notin> set s)"

text \<open>The content of the file at a position of the tree, and at a path.\<close>

definition file_in :: "(string \<times> node) list \<Rightarrow> string list \<Rightarrow> string option" where
  "file_in es q = (case lookup es q of Some (File c) \<Rightarrow> Some c | _ \<Rightarrow> None)"

definition file_at :: "filesystem \<Rightarrow> string \<Rightarrow> string option" where
  "file_at fs p = file_in (tree fs) (resolve fs p)"

text \<open>
  The locals of \<open>applyCategoryChange\<close>: the old absolute path, the new relative and
  absolute paths, and the new content of a note whose file holds \<open>raw\<close>.
\<close>

definition old_path :: "string \<Rightarrow> string \<Rightarrow> string" where
  "old_path wsroot notePath =
     resolveAbsolute wsroot (strip_leading_slashes (backslashes_to_slashes notePath))"

definition new_rel :: "string \<Rightarrow> CategoryPath \<Rightarrow> string" where
  "new_rel notePath newCategory =
     strip_leading_slashes (backslashes_to_slashes (path_join [toString newCategory,
       path_basename (strip_leading_slashes (backslashes_to_slashes notePath))]))"

definition new_path :: "string \<Rightarrow> string \<Rightarrow> CategoryPath \<Rightarrow> string" where
  "new_path wsroot notePath newCategory = resolveAbsolute wsroot (new_rel notePath newCategory)"

definition new_content :: "string \<Rightarrow> CategoryPath \<Rightarrow> string" where
  "new_content raw newCategory =
     serializeNoteFile ((parseNoteFile raw)\<lparr>frontmatter :=
       assign ''category'' (toString newCategory) (frontmatter (parseNoteFile raw))\<rparr>)"

text \<open>A workspace at \<open>/ws\<close> with a note in \<open>inbox\<close>, and the calls that the system refuses.\<close>

definition inbox_disk :: "(syscall \<times> string) set \<Rightarrow> filesystem" where
  "inbox_disk refused =
     \<lparr>tree = [(''ws'', Dir [(''AI'', Dir []),
                           (''inbox'', Dir [(''idea.md'', File ''# Idea'')])])],
      cwd = [], denied = refused\<rparr>"

text \<open>
  A workspace that is the working directory \<open>/ws\<close>, addressed by the relative root \<open>.\<close>,
  with a note in \<open>inbox\<close> whose header names that category.
\<close>

definition relative_disk :: filesystem where
  "relative_disk =
     \<lparr>tree = [(''ws'', Dir [(''inbox'', Dir [(''idea.md'',
                 File ''---\<newline>category: inbox\<newline>---\<newline># Idea'')])])],
      cwd = [''ws''], denied = {}\<rparr>"






text \<open>A workspace at \<open>/ws\<close> with the directories \<open>AI/Agents\<close> and \<open>Product\<close>.\<close>

definition example_disk :: filesystem where
  "example_disk =
     \<lparr>tree = [(''ws'', Dir [(''AI'', Dir [(''Agents'', Dir [(''note.md'', File ''# Note'')])]),
                           (''readme.md'', File ''hello''),
                           (''Product'', Dir [])])],
      cwd = [], denied = {}\<rparr>"

section \<open>Properties of CategoryPath\<close>

subsection \<open>Facts about trimming\<close>

lemma trim_Nil [simp]: "trim [] = []"
  by (simp add: trim_def)

lemma dropWhile_all_Nil: "(\<forall>x \<in> set (dropWhile P s). P x) \<Longrightarrow> dropWhile P s = []"
proof (rule ccontr)
  assume a: "\<forall>x \<in> set (dropWhile P s). P x" and n: "dropWhile P s \<noteq> []"
  from n have "\<not> P (hd (dropWhile P s))" by (rule hd_dropWhile)
  moreover have "hd (dropWhile P s) \<in> set (dropWhile P s)" using n by simp
  ultimately show False using a by blast
qed

lemma trim_eq_Nil_iff: "trim s = [] \<longleftrightarrow> (\<forall>c \<in> set s. is_space c)"
proof
  assume "trim s = []"
  then have "\<forall>x \<in> set (dropWhile is_space s). is_space x"
    by (simp add: trim_def)
  then have "dropWhile is_space s = []" by (rule dropWhile_all_Nil)
  then show "\<forall>c \<in> set s. is_space c" by simp
next
  assume a: "\<forall>c \<in> set s. is_space c"
  have "dropWhile is_space s = []" unfolding dropWhile_eq_Nil_conv by (rule a)
  then show "trim s = []" unfolding trim_def by (simp del: dropWhile_eq_Nil_conv)
qed

lemma set_trim_subset: "set (trim s) \<subseteq> set s"
proof
  fix x assume "x \<in> set (trim s)"
  then have "x \<in> set (dropWhile is_space (rev (dropWhile is_space s)))"
    by (simp add: trim_def)
  then have "x \<in> set (rev (dropWhile is_space s))" by (rule set_dropWhileD)
  then have "x \<in> set (dropWhile is_space s)" by simp
  then show "x \<in> set s" by (rule set_dropWhileD)
qed

lemma last_dropWhile_ne: "dropWhile P xs \<noteq> [] \<Longrightarrow> last (dropWhile P xs) = last xs"
  by (induction xs) (auto split: if_splits)

lemma trim_ends:
  assumes "trim s \<noteq> []"
  shows "\<not> is_space (hd (trim s))" and "\<not> is_space (last (trim s))"
proof -
  let ?d = "dropWhile is_space s"
  let ?e = "dropWhile is_space (rev ?d)"
  have e: "?e \<noteq> []" using assms unfolding trim_def by (simp del: dropWhile_eq_Nil_conv)
  have d: "?d \<noteq> []"
  proof
    assume "?d = []"
    then have "?e = []" by (simp del: dropWhile_eq_Nil_conv)
    with e show False by contradiction
  qed
  have "last (trim s) = hd ?e" unfolding trim_def by (rule last_rev)
  then show "\<not> is_space (last (trim s))" using hd_dropWhile [OF e] by simp
  have "hd (trim s) = last ?e" unfolding trim_def by (rule hd_rev)
  also have "\<dots> = last (rev ?d)" using e by (rule last_dropWhile_ne)
  also have "\<dots> = hd ?d" by (rule last_rev)
  finally show "\<not> is_space (hd (trim s))" using hd_dropWhile [OF d] by simp
qed

lemma trim_id:
  assumes "s = [] \<or> (\<not> is_space (hd s) \<and> \<not> is_space (last s))"
  shows "trim s = s"
proof (cases "s = []")
  case True then show ?thesis by simp
next
  case False
  with assms have h: "\<not> is_space (hd s)" and l: "\<not> is_space (last s)" by auto
  have 1: "dropWhile is_space s = s" unfolding dropWhile_eq_self_iff using h by simp
  have "hd (rev s) = last s" by (rule hd_rev)
  then have 2: "dropWhile is_space (rev s) = rev s" unfolding dropWhile_eq_self_iff using l by simp
  show ?thesis unfolding trim_def 1 2 by simp
qed


lemma trim_trim [simp]: "trim (trim s) = trim s"
  by (rule trim_id) (use trim_ends [of s] in blast)

subsection \<open>Facts about the slash normalization\<close>

lemma collapse_eq_Nil [simp]: "collapse_slashes u = [] \<longleftrightarrow> u = []"
  by (induction u rule: collapse_slashes.induct) auto

lemma hd_collapse [simp]: "hd (collapse_slashes u) = hd u"
  by (induction u rule: collapse_slashes.induct) auto

lemma last_collapse [simp]: "last (collapse_slashes u) = last u"
  by (induction u rule: collapse_slashes.induct) auto

lemma set_collapse [simp]: "set (collapse_slashes u) = set u"
  by (induction u rule: collapse_slashes.induct) auto

lemma no_double_collapse [simp]: "\<not> double_slash (collapse_slashes u)"
proof (induction u rule: collapse_slashes.induct)
  case (1 c d cs)
  then show ?case
    by (cases "collapse_slashes (d # cs)") (auto split: if_splits dest: arg_cong [where f = hd])
qed auto

lemma collapse_id: "\<not> double_slash w \<Longrightarrow> collapse_slashes w = w"
  by (induction w rule: collapse_slashes.induct) auto

lemma double_slash_tl: "\<not> double_slash w \<Longrightarrow> \<not> double_slash (tl w)"
  by (induction w rule: double_slash.induct) auto

lemma double_slash_butlast: "\<not> double_slash w \<Longrightarrow> \<not> double_slash (butlast w)"
  by (induction w rule: double_slash.induct) (auto split: if_splits)

lemma double_slash_snoc:
  "double_slash (w @ [c]) \<longleftrightarrow> double_slash w \<or> (w \<noteq> [] \<and> last w = CHR ''/'' \<and> c = CHR ''/'')"
  by (induction w rule: double_slash.induct) auto

lemma collapse_all_slashes:
  "collapse_slashes u = [CHR ''/''] \<longleftrightarrow> u \<noteq> [] \<and> set u \<subseteq> {CHR ''/''}"
  by (induction u rule: collapse_slashes.induct) auto


lemma butlast_eq_Nil_iff: "butlast t = [] \<longleftrightarrow> t = [] \<or> (\<exists>c. t = [c])"
  by (cases t rule: rev_cases) auto

lemma strip_edge_eq_Nil:
  "strip_edge_slashes w = [] \<longleftrightarrow> w = [] \<or> w = [CHR ''/''] \<or> w = [CHR ''/'', CHR ''/'']"
  by (cases w) (auto simp: strip_edge_slashes_def Let_def butlast_eq_Nil_iff split: if_splits)

lemma cleaned_eq_Nil_iff: "cleaned raw = [] \<longleftrightarrow> set (trim raw) \<subseteq> {CHR ''/'', CHR 0x5C}"
proof -
  let ?u = "backslashes_to_slashes (trim raw)"
  have nd: "collapse_slashes ?u \<noteq> [CHR ''/'', CHR ''/'']"
    using no_double_collapse [of ?u] by (auto simp del: no_double_collapse)
  have "cleaned raw = [] \<longleftrightarrow> ?u = [] \<or> (?u \<noteq> [] \<and> set ?u \<subseteq> {CHR ''/''})"
    unfolding cleaned_def strip_edge_eq_Nil using nd by (simp add: collapse_all_slashes)
  also have "\<dots> \<longleftrightarrow> set ?u \<subseteq> {CHR ''/''}" by auto
  also have "\<dots> \<longleftrightarrow> set (trim raw) \<subseteq> {CHR ''/'', CHR 0x5C}"
    by (auto simp: backslashes_to_slashes_def split: if_splits)
  finally show ?thesis .
qed

lemma set_strip_edge: "set (strip_edge_slashes w) \<subseteq> set w"
  by (cases w) (auto simp: strip_edge_slashes_def Let_def dest: in_set_butlastD split: if_splits)

lemma no_backslash_cleaned: "CHR 0x5C \<notin> set (cleaned raw)"
proof -
  have "CHR 0x5C \<notin> set (collapse_slashes (backslashes_to_slashes (trim raw)))"
    by (auto simp: backslashes_to_slashes_def)
  then show ?thesis unfolding cleaned_def using set_strip_edge by blast
qed

lemma backslashes_id: "CHR 0x5C \<notin> set w \<Longrightarrow> backslashes_to_slashes w = w"
  by (induction w) (auto simp: backslashes_to_slashes_def)

lemma strip_edge_no_double: "\<not> double_slash w \<Longrightarrow> \<not> double_slash (strip_edge_slashes w)"
  using double_slash_tl [of w] double_slash_butlast [of w] double_slash_butlast [of "tl w"]
  by (cases w) (auto simp: strip_edge_slashes_def Let_def split: if_splits)


lemma hd_butlast: "butlast t \<noteq> [] \<Longrightarrow> hd (butlast t) = hd t"
  by (cases t) (auto split: if_splits)

lemma no_double_butlast_last:
  assumes "\<not> double_slash t" "t \<noteq> []" "last t = CHR ''/''" "butlast t \<noteq> []"
  shows "last (butlast t) \<noteq> CHR ''/''"
proof
  assume "last (butlast t) = CHR ''/''"
  then have "double_slash (butlast t @ [last t])"
    using assms by (simp add: double_slash_snoc)
  moreover have "butlast t @ [last t] = t" using assms(2) by (rule append_butlast_last_id)
  ultimately have "double_slash t" by (simp only:)
  then show False using assms(1) by contradiction
qed

lemma strip_edge_ends:
  assumes nd: "\<not> double_slash w" and ne: "strip_edge_slashes w \<noteq> []"
  shows "hd (strip_edge_slashes w) \<noteq> CHR ''/''" and "last (strip_edge_slashes w) \<noteq> CHR ''/''"
proof -
  define t where "t = (case w of [] \<Rightarrow> [] | c # cs \<Rightarrow> if c = CHR ''/'' then cs else w)"
  have r: "strip_edge_slashes w = (if t \<noteq> [] \<and> last t = CHR ''/'' then butlast t else t)"
    by (simp add: strip_edge_slashes_def t_def)
  have tnd: "\<not> double_slash t"
    using nd double_slash_tl [OF nd] by (cases w) (auto simp: t_def)
  have tne: "t \<noteq> []" using ne r by (auto split: if_splits)
  have thd: "hd t \<noteq> CHR ''/''"
  proof (cases w)
    case Nil then show ?thesis using tne by (simp add: t_def)
  next
    case (Cons c cs)
    show ?thesis
    proof (cases "c = CHR ''/''")
      case True
      then have "t = cs" by (simp add: t_def Cons)
      then show ?thesis using nd tne True Cons by (cases cs) auto
    next
      case False then show ?thesis by (simp add: t_def Cons)
    qed
  qed
  show "hd (strip_edge_slashes w) \<noteq> CHR ''/''"
    using thd ne r hd_butlast [of t] by (auto split: if_splits)
  show "last (strip_edge_slashes w) \<noteq> CHR ''/''"
    using ne r no_double_butlast_last [OF tnd tne] by (auto split: if_splits)
qed

lemma strip_edge_id:
  "w = [] \<or> (hd w \<noteq> CHR ''/'' \<and> last w \<noteq> CHR ''/'') \<Longrightarrow> strip_edge_slashes w = w"
  by (cases w) (auto simp: strip_edge_slashes_def Let_def split: if_splits)

text \<open>What every successful result of fromRaw looks like.\<close>

lemma cleaned_shape:
  assumes "cleaned raw \<noteq> []"
  shows "CHR 0x5C \<notin> set (cleaned raw)" "\<not> double_slash (cleaned raw)"
    "hd (cleaned raw) \<noteq> CHR ''/''" "last (cleaned raw) \<noteq> CHR ''/''"
proof -
  let ?u = "collapse_slashes (backslashes_to_slashes (trim raw))"
  have c: "cleaned raw = strip_edge_slashes ?u" by (simp add: cleaned_def)
  show "CHR 0x5C \<notin> set (cleaned raw)" by (rule no_backslash_cleaned)
  show "\<not> double_slash (cleaned raw)" unfolding c by (rule strip_edge_no_double) simp
  show "hd (cleaned raw) \<noteq> CHR ''/''" using assms unfolding c
    by (intro strip_edge_ends(1)) simp_all
  show "last (cleaned raw) \<noteq> CHR ''/''" using assms unfolding c
    by (intro strip_edge_ends(2)) simp_all
qed

lemma cleaned_fixpoint:
  assumes "trim c = c" "CHR 0x5C \<notin> set c" "\<not> double_slash c"
    "c = [] \<or> (hd c \<noteq> CHR ''/'' \<and> last c \<noteq> CHR ''/'')"
  shows "cleaned c = c"
  using assms by (simp add: cleaned_def backslashes_id collapse_id strip_edge_id)

subsection \<open>Rejection and the root path\<close>

text \<open>
  When \<open>fromRaw\<close> fails: with the error "CategoryPath cannot be empty", exactly when its
  local \<open>cleaned\<close> is empty, which is exactly when the trimmed raw string consists of
  slashes and backslashes only. \<open>fromRaw("")\<close>, \<open>fromRaw("   ")\<close> and \<open>fromRaw("///")\<close>
  fail. \<open>root()\<close> is the instance with the empty path; it is a value, not an error, and
  no call of \<open>fromRaw\<close> returns it.
\<close>

lemma fromRaw_rejection:
  "(fromRaw raw = Inl (Error ''CategoryPath cannot be empty'')) = (cleaned raw = [])
   \<and> (\<exists>c. fromRaw raw = Inr c) = (cleaned raw \<noteq> [])
   \<and> (cleaned raw = []) = (set (trim raw) \<subseteq> {CHR ''/'', CHR 0x5C})
   \<and> fromRaw [] = Inl (Error ''CategoryPath cannot be empty'')
   \<and> fromRaw ''   '' = Inl (Error ''CategoryPath cannot be empty'')
   \<and> fromRaw ''///'' = Inl (Error ''CategoryPath cannot be empty'')
   \<and> toString root = [] \<and> isRoot root \<and> fromRaw raw \<noteq> Inr root"
proof -
  have ex: "fromRaw [] = Inl (Error ''CategoryPath cannot be empty'')"
    "fromRaw ''   '' = Inl (Error ''CategoryPath cannot be empty'')"
    "fromRaw ''///'' = Inl (Error ''CategoryPath cannot be empty'')"
    by (simp_all add: fromRaw_def cleaned_def trim_def is_space_def
        backslashes_to_slashes_def strip_edge_slashes_def)
  have "(fromRaw raw = Inl (Error ''CategoryPath cannot be empty'')) = (cleaned raw = [])"
    and "(\<exists>c. fromRaw raw = Inr c) = (cleaned raw \<noteq> [])"
    and "fromRaw raw \<noteq> Inr root"
    by (simp_all add: fromRaw_def root_def)
  moreover have "toString root = []" and "isRoot root"
    by (simp_all add: root_def isRoot_def)
  ultimately show ?thesis using ex cleaned_eq_Nil_iff [of raw] by blast
qed

text \<open>
  C8. \<open>fromRaw\<close> is to fail exactly when the value is empty after normalization. For the
  raw string \<open>"/ /"\<close> the normalized value is empty: what is left when the slashes at
  the two ends are stripped is one space, and trimming removes it. \<open>fromRaw\<close> trims
  before it strips the slashes, finds its local \<open>cleaned\<close> to be the string of one
  space, and returns a path of one space where it is to fail. The three examples of the
  claim do fail, and \<open>root()\<close> is a value with the empty path.
\<close>

theorem fromRaw_blank_path:
  "spec_normalized ''/ /'' = []
   \<and> fromRaw ''/ /'' = Inr (CategoryPath '' '')
   \<and> fromRaw [] = Inl (Error ''CategoryPath cannot be empty'')
   \<and> fromRaw ''   '' = Inl (Error ''CategoryPath cannot be empty'')
   \<and> fromRaw ''///'' = Inl (Error ''CategoryPath cannot be empty'')
   \<and> toString root = [] \<and> isRoot root"
  by (simp add: spec_normalized_def fromRaw_def cleaned_def trim_def is_space_def
      backslashes_to_slashes_def strip_edge_slashes_def root_def isRoot_def)

subsection \<open>Normalizing twice\<close>

text \<open>
  C2. The result of \<open>fromRaw\<close> is to be a normalized string, which \<open>fromRaw\<close> returns as
  it is. \<open>fromRaw\<close> trims first and removes the slashes at the two ends last, so white
  space next to such a slash stays in the result: \<open>fromRaw("/ a")\<close> is the path \<open>" a"\<close>,
  which \<open>fromRaw\<close> turns into the other path \<open>"a"\<close>; \<open>fromRaw("/ /")\<close> is the path
  \<open>" "\<close>, on which \<open>fromRaw\<close> fails.
\<close>

theorem fromRaw_not_idempotent:
  "fromRaw ''/ a'' = Inr (CategoryPath '' a'')
   \<and> fromRaw (toString (CategoryPath '' a'')) = Inr (CategoryPath ''a'')
   \<and> fromRaw (toString (CategoryPath '' a'')) \<noteq> fromRaw ''/ a''
   \<and> fromRaw ''/ /'' = Inr (CategoryPath '' '')
   \<and> fromRaw (toString (CategoryPath '' '')) = Inl (Error ''CategoryPath cannot be empty'')"
  by (simp add: fromRaw_def cleaned_def trim_def is_space_def
      backslashes_to_slashes_def strip_edge_slashes_def)

text \<open>
  Where normalizing twice does give the same: when the path that \<open>fromRaw\<close> returns has
  no white space at its ends, \<open>fromRaw\<close> of that path returns the same instance.
\<close>

lemma fromRaw_idempotent_trimmed:
  assumes "fromRaw s = Inr c" and "trim (toString c) = toString c"
  shows "fromRaw (toString c) = Inr c"
proof -
  from assms(1) have ne: "cleaned s \<noteq> []" and c: "toString c = cleaned s"
    by (auto simp: fromRaw_def split: if_splits)
  have "cleaned (toString c) = toString c"
    unfolding c
    using assms(2) cleaned_shape [OF ne] unfolding c
    by (intro cleaned_fixpoint) simp_all
  then show "fromRaw (toString c) = Inr c"
    using ne c by (cases c) (simp add: fromRaw_def)
qed

section \<open>Properties of note files\<close>

subsection \<open>Lines\<close>

lemma split_lines_ne [simp]: "split_lines s \<noteq> []"
  by (induction s rule: split_lines.induct) (auto split: list.splits)

lemma chomp_Cons: "l \<noteq> [] \<Longrightarrow> chomp (c # l) = c # chomp l"
  by (simp add: chomp_def)

lemma split_lines_line:
  "CHR 0x0A \<notin> set l \<Longrightarrow> split_lines (l @ CHR 0x0A # rest) = chomp l # split_lines rest"
proof (induction l)
  case Nil
  show ?case by (simp add: chomp_def)
next
  case (Cons c l)
  then have c: "c \<noteq> CHR 0x0A" and IH: "split_lines (l @ CHR 0x0A # rest) = chomp l # split_lines rest"
    by auto
  show ?case
  proof (cases "l = []")
    case True
    then show ?thesis using c by (simp add: chomp_def)
  next
    case False
    then obtain d l' where l: "l = d # l'" by (cases l) auto
    with Cons.prems have "d \<noteq> CHR 0x0A" by auto
    then have "split_lines ((c # l) @ CHR 0x0A # rest) = (c # chomp l) # split_lines rest"
      using c IH by (simp add: l)
    then show ?thesis using False by (simp add: chomp_Cons)
  qed
qed

lemma split_lines_single: "CHR 0x0A \<notin> set s \<Longrightarrow> split_lines s = [s]"
proof (induction s)
  case (Cons c s)
  then show ?case by (cases s) auto
qed simp

lemma trim_snoc_space:
  assumes "is_space c"
  shows "trim (l @ [c]) = trim l"
proof (cases "\<forall>x \<in> set l. is_space x")
  case True
  then have "\<forall>x \<in> set (l @ [c]). is_space x" using assms by simp
  then have "trim (l @ [c]) = []" unfolding trim_eq_Nil_iff .
  moreover have "trim l = []" using True unfolding trim_eq_Nil_iff .
  ultimately show ?thesis by simp
next
  case False
  then have "dropWhile is_space (l @ [c]) = dropWhile is_space l @ [c]"
    by (auto simp: dropWhile_append)
  then show ?thesis using assms by (simp add: trim_def)
qed

lemma trim_Cons_space: "is_space c \<Longrightarrow> trim (c # l) = trim l"
  by (simp add: trim_def)

lemma trim_chomp [simp]: "trim (chomp l) = trim l"
proof (cases "l \<noteq> [] \<and> last l = CHR 0x0D")
  case True
  then have "l = butlast l @ [CHR 0x0D]" by (metis append_butlast_last_id)
  then have "trim l = trim (butlast l)"
    using trim_snoc_space [of "CHR 0x0D" "butlast l"] by (simp add: is_space_def)
  then show ?thesis using True by (simp add: chomp_def)
next
  case False
  then show ?thesis by (auto simp: chomp_def)
qed

lemma trim_first_line: "trim (hd (split_lines raw)) = trim (takeWhile (\<lambda>c. c \<noteq> CHR 0x0A) raw)"
proof (cases "CHR 0x0A \<in> set raw")
  case False
  then have 1: "takeWhile (\<lambda>c. c \<noteq> CHR 0x0A) raw = raw" by auto
  have 2: "hd (split_lines raw) = raw" using False by (simp add: split_lines_single)
  show ?thesis by (simp only: 1 2)
next
  case True
  let ?l = "takeWhile (\<lambda>c. c \<noteq> CHR 0x0A) raw"
  have "dropWhile (\<lambda>c. c \<noteq> CHR 0x0A) raw \<noteq> []" using True by auto
  then obtain rest where d: "dropWhile (\<lambda>c. c \<noteq> CHR 0x0A) raw = CHR 0x0A # rest"
    using hd_dropWhile [of "\<lambda>c. c \<noteq> CHR 0x0A" raw]
    by (cases "dropWhile (\<lambda>c. c \<noteq> CHR 0x0A) raw") auto
  have raw: "raw = ?l @ CHR 0x0A # rest"
    using takeWhile_dropWhile_id [of "\<lambda>c. c \<noteq> CHR 0x0A" raw] d by simp
  have "CHR 0x0A \<notin> set ?l" by (auto dest: set_takeWhileD)
  then have "split_lines (?l @ CHR 0x0A # rest) = chomp ?l # split_lines rest"
    by (rule split_lines_line)
  then have "hd (split_lines raw) = chomp ?l" using raw by simp
  then show ?thesis by simp
qed

lemma in_set_trim: "c \<in> set s \<Longrightarrow> \<not> is_space c \<Longrightarrow> c \<in> set (trim s)"
proof -
  assume c: "c \<in> set s" and n: "\<not> is_space c"
  have d: "\<And>xs. c \<in> set xs \<Longrightarrow> c \<in> set (dropWhile is_space xs)"
  proof -
    fix xs assume "c \<in> set xs"
    then show "c \<in> set (dropWhile is_space xs)" using n by (induction xs) auto
  qed
  have "c \<in> set (rev (dropWhile is_space s))" using d [OF c] by simp
  from d [OF this] show ?thesis by (simp add: trim_def)
qed

lemma join_lines_simps [simp]:
  "join_lines [] = []" "join_lines [l] = l"
  "ls \<noteq> [] \<Longrightarrow> join_lines (l # ls) = l @ CHR 0x0A # join_lines ls"
  by (cases ls; simp add: join_lines_def)+

lemma split_join_lines:
  assumes "\<forall>l \<in> set ls. CHR 0x0A \<notin> set l \<and> chomp l = l"
  shows "split_lines (join_lines (ls @ [b])) = ls @ split_lines b"
  using assms by (induction ls) (simp_all add: split_lines_line)

subsection \<open>Objects\<close>

lemma set_insert_index [simp]: "set (insert_index i e obj) = insert e (set obj)"
  by (induction obj) (auto split: option.splits)



lemma insert_index_last:
  "\<forall>x \<in> set obj. \<exists>j. array_index (fst x) = Some j \<and> j < i \<Longrightarrow> insert_index i e obj = obj @ [e]"
  by (induction obj) auto

text \<open>A new key that belongs at the end of the object goes there.\<close>

lemma assign_last:
  assumes "object_ok (obj @ [(k, v)])" and "k \<noteq> ''__proto__''"
  shows "assign k v obj = obj @ [(k, v)]"
proof -
  from assms(1) have fresh: "k \<notin> set (map fst obj)"
    and before: "\<forall>x \<in> set obj. index_before x (k, v)"
    by (auto simp: object_ok_def sorted_wrt_append)
  show ?thesis
  proof (cases "array_index k")
    case None
    then show ?thesis using fresh assms(2) by (simp add: assign_def)
  next
    case (Some i)
    have "\<forall>x \<in> set obj. \<exists>j. array_index (fst x) = Some j \<and> j < i"
    proof
      fix x assume "x \<in> set obj"
      with before have "index_before x (k, v)" by blast
      then show "\<exists>j. array_index (fst x) = Some j \<and> j < i"
        using Some by (auto simp: index_before_def split: option.splits)
    qed
    then have "insert_index i (k, v) obj = obj @ [(k, v)]" by (rule insert_index_last)
    then show ?thesis using fresh assms(2) Some by (simp add: assign_def)
  qed
qed

lemma object_ok_prefix: "object_ok (xs @ ys) \<Longrightarrow> object_ok xs"
  by (simp add: object_ok_def sorted_wrt_append)

lemma fold_assign_object:
  "object_ok (acc @ H) \<Longrightarrow> ''__proto__'' \<notin> fst ` set H
    \<Longrightarrow> fold (\<lambda>(k, v). assign k v) H acc = acc @ H"
proof (induction H arbitrary: acc)
  case (Cons e H)
  obtain k v where e: "e = (k, v)" by (cases e)
  from Cons.prems(1) have ok: "object_ok ((acc @ [(k, v)]) @ H)" by (simp add: e)
  have 1: "assign k v acc = acc @ [(k, v)]"
    using object_ok_prefix [OF ok] Cons.prems(2) by (intro assign_last) (auto simp: e)
  have "fold (\<lambda>(k, v). assign k v) H (acc @ [(k, v)]) = (acc @ [(k, v)]) @ H"
    using ok Cons.prems(2) by (intro Cons.IH) auto
  then show ?case by (simp add: e 1)
qed simp

text \<open>The list that stands for an object is the list of its entries.\<close>

lemma Object_entries_object: "object_ok obj \<Longrightarrow> Object_entries obj = obj"
proof (induction obj)
  case Nil
  show ?case by (simp add: Object_entries_def)
next
  case (Cons e es)
  let ?idx = "\<lambda>e. case array_index (fst e) of Some i \<Rightarrow> i | None \<Rightarrow> (0::nat)"
  from Cons.prems have ok: "object_ok es" and before: "\<forall>x \<in> set es. index_before e x"
    by (auto simp: object_ok_def)
  from Cons.IH [OF ok] have IH: "sort_key ?idx (filter (\<lambda>e. array_index (fst e) \<noteq> None) es)
       @ filter (\<lambda>e. array_index (fst e) = None) es = es"
    by (simp add: Object_entries_def)
  show ?case
  proof (cases "array_index (fst e)")
    case None
    with before have "\<forall>x \<in> set es. array_index (fst x) = None"
      by (auto simp: index_before_def)
    then have "filter (\<lambda>e. array_index (fst e) \<noteq> None) es = []"
      and "filter (\<lambda>e. array_index (fst e) = None) es = es"
      by (auto simp: filter_empty_conv filter_id_conv)
    then show ?thesis using None by (simp add: Object_entries_def)
  next
    case (Some i)
    have "\<forall>x \<in> set (sort_key ?idx (filter (\<lambda>e. array_index (fst e) \<noteq> None) es)). ?idx e \<le> ?idx x"
    proof
      fix x assume "x \<in> set (sort_key ?idx (filter (\<lambda>e. array_index (fst e) \<noteq> None) es))"
      then have x: "x \<in> set es" "array_index (fst x) \<noteq> None" by auto
      with before have "index_before e x" by blast
      then show "?idx e \<le> ?idx x"
        using Some x(2) by (auto simp: index_before_def split: option.splits)
    qed
    then have "insort_key ?idx e (sort_key ?idx (filter (\<lambda>e. array_index (fst e) \<noteq> None) es))
      = e # sort_key ?idx (filter (\<lambda>e. array_index (fst e) \<noteq> None) es)"
      by (rule insort_is_Cons)
    then have "Object_entries (e # es) = e # (sort_key ?idx (filter (\<lambda>e. array_index (fst e) \<noteq> None) es)
       @ filter (\<lambda>e. array_index (fst e) = None) es)"
      using Some by (simp add: Object_entries_def)
    then show ?thesis unfolding IH .
  qed
qed

text \<open>An array index has one numeral.\<close>

lemma decimal_value_snoc:
  "decimal_value (k @ [c]) = 10 * decimal_value k + (of_char c - 48)"
  by (simp add: decimal_value_def)

lemma digit_value:
  "is_digit c \<Longrightarrow> is_digit d \<Longrightarrow> (of_char c :: nat) - 48 = of_char d - 48 \<Longrightarrow> c = d"
proof -
  assume "is_digit c" "is_digit d" "(of_char c :: nat) - 48 = of_char d - 48"
  then have "(of_char c :: nat) = of_char d" unfolding is_digit_def by linarith
  then show "c = d" by simp
qed

lemma digit_zero: "is_digit c \<Longrightarrow> c \<noteq> CHR ''0'' \<Longrightarrow> 0 < (of_char c :: nat) - 48"
proof -
  assume d: "is_digit c" and n: "c \<noteq> CHR ''0''"
  have "(of_char c :: nat) \<noteq> of_char CHR ''0''" using n by (simp del: of_char_Char)
  then show ?thesis using d by (simp add: is_digit_def)
qed

lemma decimal_value_pos:
  "k \<noteq> [] \<Longrightarrow> list_all is_digit k \<Longrightarrow> hd k \<noteq> CHR ''0'' \<Longrightarrow> 0 < decimal_value k"
proof (induction k rule: rev_induct)
  case (snoc c k)
  show ?case
  proof (cases "k = []")
    case True
    then show ?thesis using snoc.prems digit_zero [of c] by (simp add: decimal_value_def)
  next
    case False
    then have "0 < decimal_value k" using snoc by simp
    then show ?thesis by (simp add: decimal_value_snoc)
  qed
qed simp

lemma decimal_value_inj:
  "k \<noteq> [] \<Longrightarrow> list_all is_digit k \<Longrightarrow> k = ''0'' \<or> hd k \<noteq> CHR ''0''
    \<Longrightarrow> k' \<noteq> [] \<Longrightarrow> list_all is_digit k' \<Longrightarrow> k' = ''0'' \<or> hd k' \<noteq> CHR ''0''
    \<Longrightarrow> decimal_value k = decimal_value k' \<Longrightarrow> k = k'"
proof (induction k arbitrary: k' rule: rev_induct)
  case Nil
  then show ?case by simp
next
  case (snoc c ks)
  from snoc.prems(4) obtain c' ks' where k': "k' = ks' @ [c']" by (cases k' rule: rev_cases) auto
  have dc: "is_digit c" "is_digit c'" and dks: "list_all is_digit ks" "list_all is_digit ks'"
    using snoc.prems(2,5) by (simp_all add: k')
  have lt: "(of_char c :: nat) - 48 < 10" "(of_char c' :: nat) - 48 < 10"
    using dc by (auto simp: is_digit_def)
  from snoc.prems(7) have eq: "10 * decimal_value ks + (of_char c - 48)
      = 10 * decimal_value ks' + (of_char c' - 48)"
    by (simp add: k' decimal_value_snoc)
  then have v: "decimal_value ks = decimal_value ks'" and d: "(of_char c :: nat) - 48 = of_char c' - 48"
    using lt by presburger+
  have c: "c = c'" using dc d by (rule digit_value)
  have hd_ks: "hd ks \<noteq> CHR ''0''" if "ks \<noteq> []"
    using that snoc.prems(3) by (cases ks) auto
  have hd_ks': "hd ks' \<noteq> CHR ''0''" if "ks' \<noteq> []"
    using that snoc.prems(6) by (cases ks') (auto simp: k')
  have "ks = ks'"
  proof (cases "ks = []")
    case True
    then have "decimal_value ks' = 0" using v by (simp add: decimal_value_def)
    then have "ks' = []" using decimal_value_pos [OF _ dks(2)] hd_ks' by fastforce
    then show ?thesis using True by simp
  next
    case False
    then have pos: "0 < decimal_value ks" using decimal_value_pos [OF _ dks(1)] hd_ks by simp
    then have ne': "ks' \<noteq> []" using v by (auto simp: decimal_value_def)
    show ?thesis
      using False dks hd_ks [OF False] ne' hd_ks' [OF ne'] v by (intro snoc.IH) simp_all
  qed
  then show ?case using c by (simp add: k')
qed

lemma array_index_inj: "array_index k = Some i \<Longrightarrow> array_index k' = Some i \<Longrightarrow> k = k'"
proof -
  assume a: "array_index k = Some i" and b: "array_index k' = Some i"
  from a have 1: "k \<noteq> []" "list_all is_digit k" "k = ''0'' \<or> hd k \<noteq> CHR ''0''" "decimal_value k = i"
    by (auto simp: array_index_def split: if_splits)
  from b have 2: "k' \<noteq> []" "list_all is_digit k'" "k' = ''0'' \<or> hd k' \<noteq> CHR ''0''" "decimal_value k' = i"
    by (auto simp: array_index_def split: if_splits)
  show "k = k'" using 1(1-3) 2(1-3) 1(4) 2(4) by (intro decimal_value_inj) simp_all
qed

text \<open>An assignment leaves an object an object.\<close>

lemma distinct_insert_index:
  "fst e \<notin> fst ` set obj \<Longrightarrow> distinct (map fst obj) \<Longrightarrow> distinct (map fst (insert_index i e obj))"
  by (induction obj) (auto split: option.splits)

lemma sorted_insert_index:
  assumes "array_index (fst e) = Some i"
  shows "sorted_wrt index_before obj \<Longrightarrow> fst e \<notin> fst ` set obj
    \<Longrightarrow> sorted_wrt index_before (insert_index i e obj)"
proof (induction obj)
  case Nil
  show ?case by simp
next
  case (Cons e' es)
  from Cons.prems have s: "sorted_wrt index_before es" and b: "\<forall>x \<in> set es. index_before e' x"
    and f: "fst e \<notin> fst ` set es" and ne: "fst e \<noteq> fst e'" by auto
  note IH = Cons.IH [OF s f]
  show ?case
  proof (cases "array_index (fst e')")
    case None
    then have "\<forall>x \<in> set (e' # es). index_before e x"
      using b assms by (auto simp: index_before_def)
    then show ?thesis using None Cons.prems(1) by simp
  next
    case (Some j)
    have ij: "i \<noteq> j" using array_index_inj [OF assms, of "fst e'"] Some ne by auto
    show ?thesis
    proof (cases "j < i")
      case True
      then have "index_before e' e" using Some assms by (simp add: index_before_def)
      then show ?thesis using True Some IH b by simp
    next
      case False
      then have lt: "i < j" using ij by simp
      have "\<forall>x \<in> set (e' # es). index_before e x"
      proof
        fix x assume "x \<in> set (e' # es)"
        then consider "x = e'" | "x \<in> set es" by auto
        then show "index_before e x"
        proof cases
          case 1 then show ?thesis using lt Some assms by (simp add: index_before_def)
        next
          case 2
          with b have "index_before e' x" by blast
          then show ?thesis using lt Some assms by (auto simp: index_before_def split: option.splits)
        qed
      qed
      then show ?thesis using False Some Cons.prems(1) by simp
    qed
  qed
qed

lemma index_before_fst: "fst a = fst a' \<Longrightarrow> fst b = fst b' \<Longrightarrow> index_before a b = index_before a' b'"
  by (auto simp: index_before_def split: option.splits)

lemma sorted_keys:
  "sorted_wrt index_before obj = sorted_wrt (\<lambda>k k'. index_before (k, []) (k', [])) (map fst obj)"
  unfolding sorted_wrt_map by (rule arg_cong [where f = "\<lambda>R. sorted_wrt R obj"]) (auto simp: fun_eq_iff index_before_def split: option.splits)

lemma object_ok_keys: "map fst obj = map fst obj' \<Longrightarrow> object_ok obj = object_ok obj'"
  by (simp add: object_ok_def sorted_keys)

lemma object_ok_assign: "object_ok obj \<Longrightarrow> object_ok (assign k v obj)"
proof -
  assume ok: "object_ok obj"
  show ?thesis
  proof (cases "k \<in> set (map fst obj)")
    case True
    then have "map fst (AList.update k v obj) = map fst obj" by (simp add: update_keys)
    then show ?thesis using ok True object_ok_keys [of "AList.update k v obj" obj]
      by (simp add: assign_def)
  next
    case False
    show ?thesis
    proof (cases "k = ''__proto__''")
      case True
      then show ?thesis using ok False by (simp add: assign_def)
    next
      case np: False
      show ?thesis
      proof (cases "array_index k")
        case None
        have "\<forall>x \<in> set obj. index_before x (k, v)"
          using None by (auto simp: index_before_def split: option.splits)
        then have "object_ok (obj @ [(k, v)])"
          using ok False by (auto simp: object_ok_def sorted_wrt_append)
        then show ?thesis using False np None by (simp add: assign_def)
      next
        case (Some i)
        have "object_ok (insert_index i (k, v) obj)"
          using ok False Some sorted_insert_index [of "(k, v)" i obj]
            distinct_insert_index [of "(k, v)" obj i]
          by (auto simp: object_ok_def)
        then show ?thesis using False np Some by (simp add: assign_def)
      qed
    qed
  qed
qed

subsection \<open>The loop\<close>

lemma parse_loop_delimiter: "trim l = ''---'' \<Longrightarrow> parse_loop (l # lines) fm = (fm, lines)"
  by (cases "l = []") auto



lemma parseNoteFile_alt:
  "parseNoteFile raw =
     (if trim (hd (split_lines raw)) \<noteq> ''---'' then \<lparr>frontmatter = [], body = raw\<rparr>
      else \<lparr>frontmatter = fst (parse_loop (tl (split_lines raw)) []),
             body = join_lines (snd (parse_loop (tl (split_lines raw)) []))\<rparr>)"
  by (cases "split_lines raw") (auto simp: parseNoteFile_def split: prod.splits)


lemma parseNoteFile_line:
  assumes "CHR 0x0A \<notin> set l"
  shows "parseNoteFile (l @ CHR 0x0A # rest) =
    (if trim l \<noteq> ''---'' then \<lparr>frontmatter = [], body = l @ CHR 0x0A # rest\<rparr>
     else \<lparr>frontmatter = fst (parse_loop (split_lines rest) []),
            body = join_lines (snd (parse_loop (split_lines rest) []))\<rparr>)"
  by (simp add: parseNoteFile_alt split_lines_line [OF assms])

text \<open>One turn of the loop on a line that is not a delimiter.\<close>

lemma parse_loop_step:
  "trim l \<noteq> ''---'' \<Longrightarrow> parse_loop (l # lines) fm
     = parse_loop lines (case header_entry l of None \<Rightarrow> fm | Some (k, v) \<Rightarrow> assign k v fm)"
  by (simp add: header_entry_def Let_def del: trim_eq_Nil_iff)

text \<open>
  The loop as a whole: the entries of the lines before the first delimiter are assigned
  in turn, and the lines after that delimiter are left.
\<close>

lemma parse_loop_lines:
  "parse_loop lines fm
     = (fold (\<lambda>(k, v). assign k v)
          (List.map_filter header_entry (takeWhile (\<lambda>l. trim l \<noteq> ''---'') lines)) fm,
        drop 1 (dropWhile (\<lambda>l. trim l \<noteq> ''---'') lines))"
proof (induction lines arbitrary: fm)
  case Nil
  show ?case by (simp add: List.map_filter_simps)
next
  case (Cons l lines)
  show ?case
  proof (cases "trim l = ''---''")
    case True
    show ?thesis
      unfolding parse_loop_delimiter [OF True] using True
      by (simp add: List.map_filter_simps)
  next
    case False
    show ?thesis
      unfolding parse_loop_step [OF False] Cons.IH using False
      by (cases "header_entry l") (auto simp: List.map_filter_simps)
  qed
qed

text \<open>The header that the parser returns is an object, and the list of its own entries.\<close>

lemma object_ok_fold_assign:
  "object_ok obj \<Longrightarrow> object_ok (fold (\<lambda>(k, v). assign k v) es obj)"
  by (induction es arbitrary: obj) (auto simp: object_ok_assign)

lemma parseNoteFile_object:
  "object_ok (frontmatter (parseNoteFile raw))"
  "Object_entries (frontmatter (parseNoteFile raw)) = frontmatter (parseNoteFile raw)"
proof -
  have e: "object_ok []" by (simp add: object_ok_def)
  show "object_ok (frontmatter (parseNoteFile raw))"
    using object_ok_fold_assign [OF e] by (simp add: parseNoteFile_alt parse_loop_lines e)
  then show "Object_entries (frontmatter (parseNoteFile raw)) = frontmatter (parseNoteFile raw)"
    by (rule Object_entries_object)
qed

subsection \<open>Files without a header\<close>

text \<open>
  C9 as stated does not hold. The first line is compared with the delimiter after
  trimming, so a first line that is not the delimiter line \<open>---\<close> but \<open>---\<close> followed by
  a space still opens a header: the header mapping is not empty and the body is not the
  input text.
\<close>

theorem padded_first_line_not_passed_through:
  "takeWhile (\<lambda>c. c \<noteq> CHR 0x0A) ''--- \<newline>title: T\<newline>---\<newline>text'' \<noteq> ''---''
   \<and> parseNoteFile ''--- \<newline>title: T\<newline>---\<newline>text''
       = \<lparr>frontmatter = [(''title'', ''T'')], body = ''text''\<rparr>
   \<and> parseNoteFile ''--- \<newline>title: T\<newline>---\<newline>text''
       \<noteq> \<lparr>frontmatter = [], body = ''--- \<newline>title: T\<newline>---\<newline>text''\<rparr>"
  by (simp add: parseNoteFile_def assign_def array_index_def decimal_value_def is_digit_def
      trim_def is_space_def join_lines_def)

text \<open>
  C9, amended. When the first line of the text, that is the text before its first line
  feed, does not trim to the delimiter \<open>---\<close>, \<open>parseNoteFile\<close> returns an empty header
  mapping and the whole text, unchanged, as the body.
\<close>

theorem no_header_passthrough:
  "trim (takeWhile (\<lambda>c. c \<noteq> CHR 0x0A) raw) \<noteq> ''---''
    \<Longrightarrow> parseNoteFile raw = \<lparr>frontmatter = [], body = raw\<rparr>"
  by (simp add: parseNoteFile_alt trim_first_line)

theorem no_header_passthrough_witness:
  "trim (takeWhile (\<lambda>c. c \<noteq> CHR 0x0A) ''- --\<newline>key: value\<newline>---\<newline>text'') \<noteq> ''---''
   \<and> parseNoteFile ''- --\<newline>key: value\<newline>---\<newline>text''
       = \<lparr>frontmatter = [], body = ''- --\<newline>key: value\<newline>---\<newline>text''\<rparr>"
proof -
  have h: "trim (takeWhile (\<lambda>c. c \<noteq> CHR 0x0A) ''- --\<newline>key: value\<newline>---\<newline>text'') \<noteq> ''---''"
    by (simp add: trim_def is_space_def)
  show ?thesis by (rule conjI [OF h no_header_passthrough [OF h]])
qed

subsection \<open>The delimiter line\<close>




subsection \<open>A header that is never closed\<close>

text \<open>
  When the first line trims to \<open>---\<close> and no later line does, \<open>parseNoteFile\<close> returns a
  result: the entries of the later lines are assigned to the header in turn, and the
  body is the empty string.
\<close>

lemma parseNoteFile_unterminated:
  assumes "trim (takeWhile (\<lambda>c. c \<noteq> CHR 0x0A) raw) = ''---''"
    and "list_all (\<lambda>l. trim l \<noteq> ''---'') (tl (split_lines raw))"
  shows "parseNoteFile raw =
      \<lparr>frontmatter = fold (\<lambda>(k, v). assign k v)
          (List.map_filter header_entry (tl (split_lines raw))) [],
       body = []\<rparr>"
proof -
  from assms(2) have "\<forall>l \<in> set (tl (split_lines raw)). trim l \<noteq> ''---''"
    by (simp add: list_all_iff)
  then have tw: "takeWhile (\<lambda>l. trim l \<noteq> ''---'') (tl (split_lines raw)) = tl (split_lines raw)"
    and dw: "dropWhile (\<lambda>l. trim l \<noteq> ''---'') (tl (split_lines raw)) = []"
    by (simp_all add: takeWhile_eq_all_conv)
  have "parse_loop (tl (split_lines raw)) []
      = (fold (\<lambda>(k, v). assign k v) (List.map_filter header_entry (tl (split_lines raw))) [], [])"
    unfolding parse_loop_lines tw dw by simp
  then show ?thesis
    using assms(1) by (simp add: parseNoteFile_alt trim_first_line)
qed

lemma unterminated_example:
  "parseNoteFile ''---\<newline>k: v\<newline>\<newline>no colon\<newline> : x\<newline>k2:w\<newline>k: z''
     = \<lparr>frontmatter = [(''k'', ''z''), (''k2'', ''w'')], body = []\<rparr>"
  by (simp add: parseNoteFile_def assign_def array_index_def decimal_value_def is_digit_def
      trim_def is_space_def join_lines_def)

text \<open>
  C10. In a file whose first line is \<open>---\<close> and which has no closing delimiter, every
  later line with a colon and a key that is not blank is to become a header entry. The
  line \<open>__proto__: x\<close> is such a line, and \<open>parseNoteFile\<close> returns a header without an
  entry for it: the assignment to the key \<open>__proto__\<close> of the plain object that holds
  the header stores nothing. The body is the empty string, as it is to be.
\<close>

theorem unterminated_header_loses_proto:
  "trim (takeWhile (\<lambda>c. c \<noteq> CHR 0x0A) ''---\<newline>__proto__: x\<newline>k: v'') = ''---''
   \<and> list_all (\<lambda>l. trim l \<noteq> ''---'') (tl (split_lines ''---\<newline>__proto__: x\<newline>k: v''))
   \<and> List.map_filter header_entry (tl (split_lines ''---\<newline>__proto__: x\<newline>k: v''))
       = [(''__proto__'', ''x''), (''k'', ''v'')]
   \<and> parseNoteFile ''---\<newline>__proto__: x\<newline>k: v''
       = \<lparr>frontmatter = [(''k'', ''v'')], body = []\<rparr>"
  by (simp add: parseNoteFile_def List.map_filter_simps header_entry_def assign_def
      array_index_def decimal_value_def is_digit_def trim_def is_space_def join_lines_def)

subsection \<open>Serializing and parsing again\<close>

lemma header_line_facts:
  assumes "k \<noteq> []" "trim k = k" "trim v = v" "CHR '':'' \<notin> set k"
    "CHR 0x0A \<notin> set k" "CHR 0x0A \<notin> set v"
  shows "CHR 0x0A \<notin> set (k @ '': '' @ v)" and "chomp (k @ '': '' @ v) = k @ '': '' @ v"
    and "trim (k @ '': '' @ v) \<noteq> ''---''"
    and "header_entry (k @ '': '' @ v) = Some (k, v)"
proof -
  let ?l = "k @ '': '' @ v"
  show "CHR 0x0A \<notin> set ?l" using assms by simp
  have "last ?l \<noteq> CHR 0x0D"
  proof (cases "v = []")
    case True then show ?thesis by simp
  next
    case False
    then have "\<not> is_space (last v)" using assms(3) trim_ends(2) [of v] by simp
    then show ?thesis using False by (auto simp: is_space_def)
  qed
  then show "chomp ?l = ?l" by (simp add: chomp_def)
  have "CHR '':'' \<in> set (trim ?l)" by (rule in_set_trim) (simp_all add: is_space_def)
  then show "trim ?l \<noteq> ''---''" by auto
  have tw: "takeWhile (\<lambda>c. c \<noteq> CHR '':'') (k @ CHR '':'' # CHR '' '' # v) = k"
    using assms(4) by (simp add: takeWhile_append)
  have dw: "dropWhile (\<lambda>c. c \<noteq> CHR '':'') (k @ CHR '':'' # CHR '' '' # v) = CHR '':'' # CHR '' '' # v"
    using assms(4) by (simp add: dropWhile_append)
  have "trim (CHR '' '' # v) = v" using assms(3) by (simp add: trim_Cons_space is_space_def)
  then show "header_entry ?l = Some (k, v)"
    using assms(1,2) by (simp add: header_entry_def tw dw del: trim_eq_Nil_iff)
qed

lemma parse_loop_header:
  assumes "list_all (\<lambda>(k, v). k \<noteq> [] \<and> trim k = k \<and> trim v = v \<and> CHR '':'' \<notin> set k
                  \<and> CHR 0x0A \<notin> set k \<and> CHR 0x0A \<notin> set v) H"
  shows "parse_loop (map (\<lambda>(k, v). k @ '': '' @ v) H @ ''---'' # rest) fm
    = (fold (\<lambda>(k, v). assign k v) H fm, rest)"
  using assms
proof (induction H arbitrary: fm)
  case Nil
  show ?case by (simp add: trim_def is_space_def)
next
  case (Cons e H)
  obtain k v where e: "e = (k, v)" by (cases e)
  from Cons.prems have kv: "k \<noteq> []" "trim k = k" "trim v = v" "CHR '':'' \<notin> set k"
    "CHR 0x0A \<notin> set k" "CHR 0x0A \<notin> set v" by (simp_all add: e)
  note f = header_line_facts [OF kv]
  have "parse_loop ((k @ '': '' @ v) # (map (\<lambda>(k, v). k @ '': '' @ v) H @ ''---'' # rest)) fm
    = parse_loop (map (\<lambda>(k, v). k @ '': '' @ v) H @ ''---'' # rest) (assign k v fm)"
    unfolding parse_loop_step [OF f(3)] f(4) by simp
  also have "\<dots> = (fold (\<lambda>(k, v). assign k v) H (assign k v fm), rest)"
    using Cons.prems by (intro Cons.IH) simp
  finally show ?case by (simp add: e)
qed

text \<open>
  The exact result of parsing a serialization: the header comes back, the body comes
  back with LF line breaks and after the empty line that the serializer puts between
  the closing delimiter and the body.
\<close>

lemma parse_serialize:
  assumes "H \<noteq> []" and "header_ok H"
  shows "parseNoteFile (serializeNoteFile \<lparr>frontmatter = H, body = B\<rparr>)
    = \<lparr>frontmatter = H, body = CHR 0x0A # join_lines (split_lines B)\<rparr>"
proof -
  let ?fmt = "\<lambda>(k, v). k @ '': '' @ v"
  let ?ls = "''---'' # map ?fmt H @ [''---'', []]"
  from assms(2) have obj: "object_ok H"
    and all: "list_all (\<lambda>(k, v). k \<noteq> [] \<and> k \<noteq> ''__proto__'' \<and> trim k = k \<and> trim v = v
                  \<and> CHR '':'' \<notin> set k \<and> CHR 0x0A \<notin> set k \<and> CHR 0x0A \<notin> set v) H"
    by (simp_all add: header_ok_def)
  from all have ok: "list_all (\<lambda>(k, v). k \<noteq> [] \<and> trim k = k \<and> trim v = v \<and> CHR '':'' \<notin> set k
                  \<and> CHR 0x0A \<notin> set k \<and> CHR 0x0A \<notin> set v) H"
    and np: "''__proto__'' \<notin> fst ` set H"
    by (auto simp: list_all_iff)
  have ser: "serializeNoteFile \<lparr>frontmatter = H, body = B\<rparr> = join_lines (?ls @ [B])"
    using assms(1) by (simp add: serializeNoteFile_def Object_entries_object [OF obj])
  have lines: "\<forall>l \<in> set ?ls. CHR 0x0A \<notin> set l \<and> chomp l = l"
  proof
    fix l assume "l \<in> set ?ls"
    then consider "l = ''---''" | "l = []" | k v where "(k, v) \<in> set H" "l = k @ '': '' @ v"
      by auto
    then show "CHR 0x0A \<notin> set l \<and> chomp l = l"
    proof cases
      case 3
      with ok have kv: "k \<noteq> []" "trim k = k" "trim v = v" "CHR '':'' \<notin> set k"
        "CHR 0x0A \<notin> set k" "CHR 0x0A \<notin> set v" by (auto simp: list_all_iff)
      show ?thesis unfolding 3(2) using header_line_facts(1,2) [OF kv] by blast
    qed (simp_all add: chomp_def)
  qed
  have sp: "split_lines (join_lines (?ls @ [B])) = ?ls @ split_lines B"
    using lines by (rule split_join_lines)
  have loop: "parse_loop (map ?fmt H @ ''---'' # [] # split_lines B) []
      = (fold (\<lambda>(k, v). assign k v) H [], [] # split_lines B)"
    using ok by (rule parse_loop_header)
  have fm: "fold (\<lambda>(k, v). assign k v) H [] = H"
    using fold_assign_object [of "[]" H] obj np by simp
  have t: "trim ''---'' = ''---''" by (simp add: trim_def is_space_def)
  show ?thesis
    unfolding ser parseNoteFile_alt sp using t loop fm by simp
qed

text \<open>
  C1 as stated does not hold. The round trip does not return every body and every header as they were: a CRLF line
  break of the body comes back as LF, and white space at the ends of a key or a value is
  trimmed away.
\<close>

theorem roundtrip_changes_body:
  "parseNoteFile (serializeNoteFile
       \<lparr>frontmatter = [(''k'', ''v'')], body = ''a'' @ [CHR 0x0D, CHR 0x0A] @ ''b''\<rparr>)
     = \<lparr>frontmatter = [(''k'', ''v'')], body = ''\<newline>a\<newline>b''\<rparr>
   \<and> parseNoteFile (serializeNoteFile
       \<lparr>frontmatter = [(''k'', ''v'')], body = ''a'' @ [CHR 0x0D, CHR 0x0A] @ ''b''\<rparr>)
     \<noteq> \<lparr>frontmatter = [(''k'', ''v'')], body = ''a'' @ [CHR 0x0D, CHR 0x0A] @ ''b''\<rparr>
   \<and> parseNoteFile (serializeNoteFile \<lparr>frontmatter = [('' k'', ''v '')], body = ''b''\<rparr>)
     = \<lparr>frontmatter = [(''k'', ''v'')], body = ''\<newline>b''\<rparr>"
  by (simp add: parseNoteFile_def serializeNoteFile_def Object_entries_def assign_def
      array_index_def decimal_value_def is_digit_def trim_def is_space_def join_lines_def)

text \<open>
  C1, amended. For a header mapping that is not empty, with keys that are not empty, have
  no colon and are not \<open>__proto__\<close>, and keys and values that have no white space at
  their ends and no line feed, parsing the serialization returns exactly that header
  mapping, every key and value in its place; the returned body ends with the body that
  was serialized, its CRLF line breaks written as LF.
\<close>

theorem roundtrip_header:
  assumes "H \<noteq> []" and "header_ok H"
  shows "frontmatter (parseNoteFile (serializeNoteFile \<lparr>frontmatter = H, body = B\<rparr>)) = H
    \<and> suffix (join_lines (split_lines B))
        (body (parseNoteFile (serializeNoteFile \<lparr>frontmatter = H, body = B\<rparr>)))"
  unfolding parse_serialize [OF assms] by (simp add: suffix_Cons)

theorem roundtrip_header_witness:
  "[(''7'', ''seven''), (''category'', ''AI/Agents''), (''tags'', ''a: b'')] \<noteq> []
   \<and> header_ok [(''7'', ''seven''), (''category'', ''AI/Agents''), (''tags'', ''a: b'')]
   \<and> (frontmatter (parseNoteFile (serializeNoteFile
         \<lparr>frontmatter = [(''7'', ''seven''), (''category'', ''AI/Agents''), (''tags'', ''a: b'')],
          body = ''# T\<newline>text''\<rparr>))
        = [(''7'', ''seven''), (''category'', ''AI/Agents''), (''tags'', ''a: b'')]
      \<and> suffix (join_lines (split_lines ''# T\<newline>text''))
          (body (parseNoteFile (serializeNoteFile
            \<lparr>frontmatter = [(''7'', ''seven''), (''category'', ''AI/Agents''), (''tags'', ''a: b'')],
             body = ''# T\<newline>text''\<rparr>))))"
proof -
  have h1: "[(''7'', ''seven''), (''category'', ''AI/Agents''), (''tags'', ''a: b'')] \<noteq> []" by simp
  have h2: "header_ok [(''7'', ''seven''), (''category'', ''AI/Agents''), (''tags'', ''a: b'')]"
    by (simp add: header_ok_def object_ok_def index_before_def array_index_def decimal_value_def is_digit_def
        trim_def is_space_def)
  show ?thesis by (rule conjI [OF h1 conjI [OF h2 roundtrip_header [OF h1 h2]]])
qed

subsection \<open>The title\<close>

text \<open>The two examples of the specification.\<close>

lemma deriveTitle_examples:
  "deriveTitle ''notes/foo.md'' ''# My Title\<newline>\<newline>text'' = ''My Title''"
  "deriveTitle ''notes/foo.md'' ''no heading here'' = ''foo''"
  by (simp_all add: deriveTitle_def strip_heading_marker_def trim_def is_space_def path_basename_def path_extname_def path_basename_suffix_def Let_def)

text \<open>
  C3. The heading line is found by its trimmed text, but the marker is removed only
  when it is the first character of the line as it stands: for an indented heading the
  title keeps the marker. The claim gives the title \<open>My Title\<close> here.
\<close>

theorem deriveTitle_indented_heading:
  "deriveTitle ''notes/foo.md'' ''  # My Title'' = ''# My Title''"
  by (simp add: deriveTitle_def strip_heading_marker_def trim_def is_space_def)

lemma trim_dropWhile_space [simp]: "trim (dropWhile is_space s) = trim s"
  by (simp add: trim_def)

lemma trim_Cons_all_space:
  assumes "\<not> is_space c" and "\<forall>x \<in> set cs. is_space x"
  shows "trim (c # cs) = [c]"
proof -
  have "dropWhile is_space (rev cs @ [c]) = [c]"
    using assms by (simp add: dropWhile_append)
  then show ?thesis using assms(1) by (simp add: trim_def)
qed

text \<open>
  With a heading line, the title is the trimmed line without its first character when
  that character is the marker, and the whole trimmed line, marker included, when the
  line is indented. It is never empty, so the base name is not used.
\<close>

lemma deriveTitle_heading:
  assumes "find (\<lambda>line. prefix ''# '' (trim line)) (split_lines b) = Some h1"
  shows "deriveTitle p b = (if hd h1 = CHR ''#'' then trim (tl h1) else trim h1)"
    and "deriveTitle p b \<noteq> []"
proof -
  from assms have pre: "prefix ''# '' (trim h1)" by (auto simp: find_Some_iff)
  then obtain r where t: "trim h1 = ''# '' @ r" by (auto simp: prefix_def)
  then have ne: "h1 \<noteq> []" by auto
  then obtain c cs where h1: "h1 = c # cs" by (cases h1) auto
  have res: "deriveTitle p b = (if hd h1 = CHR ''#'' then trim (tl h1) else trim h1)
      \<and> deriveTitle p b \<noteq> []"
  proof (cases "c = CHR ''#''")
    case True
    have "\<not> (\<forall>x \<in> set cs. is_space x)"
    proof
      assume "\<forall>x \<in> set cs. is_space x"
      then have "trim h1 = ''#''"
        unfolding h1 True by (intro trim_Cons_all_space) (simp_all add: is_space_def)
      with t show False by simp
    qed
    then have "trim cs \<noteq> []" unfolding trim_eq_Nil_iff .
    then show ?thesis
      using assms by (simp add: deriveTitle_def strip_heading_marker_def h1 True
          del: trim_eq_Nil_iff)
  next
    case False
    have "trim h1 \<noteq> []" using t by simp
    then show ?thesis
      using assms False by (simp add: deriveTitle_def strip_heading_marker_def h1
          del: trim_eq_Nil_iff)
  qed
  from res show "deriveTitle p b = (if hd h1 = CHR ''#'' then trim (tl h1) else trim h1)" ..
  from res show "deriveTitle p b \<noteq> []" ..
qed

lemma deriveTitle_no_heading:
  "find (\<lambda>line. prefix ''# '' (trim line)) (split_lines b) = None
    \<Longrightarrow> deriveTitle p b = path_basename_suffix p (path_extname p)"
  by (simp add: deriveTitle_def)

section \<open>Properties of the path functions\<close>

subsection \<open>Segments\<close>

lemma split_on_ne [simp]: "split_on d s \<noteq> []"
  by (induction s) (auto split: list.splits)

lemma split_on_append: "split_on d (a @ d # b) = split_on d a @ split_on d b"
proof (induction a)
  case (Cons c a)
  then show ?case by (cases "split_on d a") auto
qed simp

lemma split_on_nosep: "d \<notin> set s \<Longrightarrow> split_on d s = [s]"
  by (induction s) auto

lemma split_on_no_sep_inside: "x \<in> set (split_on d s) \<Longrightarrow> d \<notin> set x"
proof (induction s arbitrary: x)
  case (Cons c s)
  then show ?case by (cases "split_on d s") (auto split: if_splits)
qed simp

lemma join_with_Cons: "ss \<noteq> [] \<Longrightarrow> join_with sep (s # ss) = s @ sep @ join_with sep ss"
  by (cases ss) auto


lemma split_join:
  "ss \<noteq> [] \<Longrightarrow> \<forall>s \<in> set ss. d \<notin> set s \<Longrightarrow> split_on d (join_with [d] ss) = ss"
proof (induction ss)
  case (Cons s ss)
  show ?case
  proof (cases "ss = []")
    case True
    then show ?thesis using Cons.prems by (simp add: split_on_nosep)
  next
    case False
    then have "join_with [d] (s # ss) = s @ d # join_with [d] ss" by (simp add: join_with_Cons)
    then show ?thesis using Cons False by (simp add: split_on_append split_on_nosep)
  qed
qed simp

subsection \<open>Normalizing segments\<close>

lemma normalizeString_append:
  "normalizeString a (xs @ ys) res = normalizeString a ys (normalizeString a xs res)"
  by (induction xs arbitrary: res) auto

lemma normalizeString_clean:
  "list_all clean_seg segs \<Longrightarrow> normalizeString a segs res = res @ segs"
  by (induction segs arbitrary: res) (auto simp: clean_seg_def)

lemma normalizeString_result_clean:
  "list_all clean_seg res \<Longrightarrow> \<forall>s \<in> set segs. CHR ''/'' \<notin> set s
    \<Longrightarrow> list_all clean_seg (normalizeString False segs res)"
proof (induction segs arbitrary: res)
  case (Cons s segs)
  have b: "list_all clean_seg (butlast res)"
    using Cons.prems(1) by (auto simp: list_all_iff dest: in_set_butlastD)
  have "s \<noteq> [] \<Longrightarrow> s \<noteq> ''.'' \<Longrightarrow> s \<noteq> ''..'' \<Longrightarrow> clean_seg s"
    using Cons.prems(2) by (simp add: clean_seg_def)
  then have a: "s \<noteq> [] \<Longrightarrow> s \<noteq> ''.'' \<Longrightarrow> s \<noteq> ''..'' \<Longrightarrow> list_all clean_seg (res @ [s])"
    using Cons.prems(1) by simp
  show ?case using Cons.prems b a by (auto intro!: Cons.IH)
qed simp


subsection \<open>Absolute paths\<close>

lemma path_normalize_absolute:
  assumes "take 1 p = ''/''"
  shows "path_normalize p =
    (let ns = normalizeString False (split_on CHR ''/'' p) []
     in if ns = [] then ''/''
        else ''/'' @ join_with ''/'' ns @ (if trailing_slash p then ''/'' else []))"
proof -
  from assms obtain r where p: "p = CHR ''/'' # r" by (cases p) auto
  let ?ns = "normalizeString False (split_on CHR ''/'' p) []"
  have c: "list_all clean_seg ?ns"
    by (rule normalizeString_result_clean) (auto dest: split_on_no_sep_inside)
  have "join_with ''/'' ?ns = [] \<longleftrightarrow> ?ns = []"
  proof (cases ?ns)
    case (Cons a list)
    then have "a \<noteq> []" using c by (simp add: clean_seg_def)
    then show ?thesis using Cons by (cases list) auto
  qed simp
  then show ?thesis
    by (simp add: path_normalize_def p Let_def trailing_slash_def)
qed


lemma split_on_slash_Cons: "split_on CHR ''/'' (CHR ''/'' # r) = [] # split_on CHR ''/'' r"
  by simp

lemma normalizeString_Nil_seg [simp]: "normalizeString a ([] # segs) res = normalizeString a segs res"
  by simp

text \<open>What an absolute path resolves to, and the same after \<open>normalize\<close>.\<close>

lemma resolve_absolute:
  "take 1 p = ''/'' \<Longrightarrow> resolve fs p = normalizeString False (split_on CHR ''/'' p) []"
  by (simp add: resolve_def)

lemma resolve_clean: "take 1 p = ''/'' \<Longrightarrow> list_all clean_seg (resolve fs p)"
  unfolding resolve_absolute
  by (rule normalizeString_result_clean) (auto dest: split_on_no_sep_inside)

lemma resolve_join_clean:
  assumes "list_all clean_seg ns"
  shows "resolve fs (''/'' @ join_with ''/'' ns) = ns"
    and "resolve fs (''/'' @ join_with ''/'' ns @ ''/'') = ns"
proof -
  have sl: "\<forall>s \<in> set ns. CHR ''/'' \<notin> set s" using assms by (auto simp: list_all_iff clean_seg_def)
  have 1: "split_on CHR ''/'' (join_with ''/'' ns) = (if ns = [] then [[]] else ns)"
    using split_join [of ns "CHR ''/''"] sl by auto
  have 2: "split_on CHR ''/'' (join_with ''/'' ns @ ''/'') = (if ns = [] then [[]] else ns) @ [[]]"
    using split_on_append [of "CHR ''/''" "join_with ''/'' ns" "[]"] 1 by simp
  show "resolve fs (''/'' @ join_with ''/'' ns) = ns"
    using assms by (simp add: resolve_def 1 normalizeString_clean)
  show "resolve fs (''/'' @ join_with ''/'' ns @ ''/'') = ns"
    using assms by (simp add: resolve_def 2 normalizeString_append normalizeString_clean)
qed

lemma resolve_normalize:
  assumes "take 1 p = ''/''"
  shows "resolve fs (path_normalize p) = resolve fs p"
proof -
  let ?ns = "normalizeString False (split_on CHR ''/'' p) []"
  have c: "list_all clean_seg ?ns" using resolve_clean [OF assms, of fs] assms
    by (simp add: resolve_absolute)
  have r: "resolve fs p = ?ns" using assms by (rule resolve_absolute)
  show ?thesis
  proof (cases "?ns = []")
    case True
    then show ?thesis
      unfolding path_normalize_absolute [OF assms] r by (simp add: resolve_def)
  next
    case False
    then show ?thesis
      unfolding path_normalize_absolute [OF assms] r
      using resolve_join_clean [OF c, of fs] by (simp add: Let_def)
  qed
qed

lemma path_normalize_of_resolve:
  assumes "take 1 p = ''/''" and "\<not> trailing_slash (path_normalize p)"
  shows "path_normalize p = ''/'' @ join_with ''/'' (resolve fs p)"
proof -
  let ?ns = "normalizeString False (split_on CHR ''/'' p) []"
  have r: "resolve fs p = ?ns" using assms(1) by (rule resolve_absolute)
  have n: "path_normalize p =
     (if ?ns = [] then ''/''
      else ''/'' @ join_with ''/'' ?ns @ (if trailing_slash p then ''/'' else []))"
    using path_normalize_absolute [OF assms(1)] by (simp add: Let_def)
  show ?thesis
    using assms(2) unfolding r n by (auto simp: trailing_slash_def split: if_splits)
qed

lemma path_normalize_inj:
  assumes "take 1 p = ''/''" "take 1 q = ''/''"
    and "\<not> trailing_slash (path_normalize p)" "\<not> trailing_slash (path_normalize q)"
    and "resolve fs (path_normalize p) = resolve fs (path_normalize q)"
  shows "path_normalize p = path_normalize q"
  using assms path_normalize_of_resolve [of p fs] path_normalize_of_resolve [of q fs]
  by (simp add: resolve_normalize)

text \<open>Below an absolute workspace root.\<close>

lemma resolveAbsolute_normalize:
  assumes "take 1 wsroot = ''/''"
  shows "\<exists>p. take 1 p = ''/'' \<and> resolveAbsolute wsroot rel = path_normalize p
    \<and> resolve fs p = normalizeString False
         (split_on CHR ''/'' (strip_leading_slashes (backslashes_to_slashes rel))) (resolve fs wsroot)"
proof -
  let ?r = "strip_leading_slashes (backslashes_to_slashes rel)"
  from assms have ne: "wsroot \<noteq> []" by auto
  show ?thesis
  proof (cases "?r = []")
    case True
    then have "resolveAbsolute wsroot rel = path_normalize wsroot"
      using ne by (simp add: resolveAbsolute_def path_join_def)
    then show ?thesis using assms True by (intro exI [of _ wsroot]) simp
  next
    case False
    let ?p = "wsroot @ CHR ''/'' # ?r"
    have "resolveAbsolute wsroot rel = path_normalize ?p"
      using ne False by (simp add: resolveAbsolute_def path_join_def)
    moreover have a: "take 1 ?p = ''/''" using assms ne by (cases wsroot) auto
    moreover have "resolve fs ?p = normalizeString False (split_on CHR ''/'' ?r) (resolve fs wsroot)"
      unfolding resolve_absolute [OF a] resolve_absolute [OF assms]
      by (simp add: split_on_append normalizeString_append)
    ultimately show ?thesis by (intro exI [of _ ?p]) simp
  qed
qed


lemma resolveAbsolute_inj:
  assumes "take 1 wsroot = ''/''"
    and "\<not> trailing_slash (resolveAbsolute wsroot a)" "\<not> trailing_slash (resolveAbsolute wsroot b)"
    and "resolve fs (resolveAbsolute wsroot a) = resolve fs (resolveAbsolute wsroot b)"
  shows "resolveAbsolute wsroot a = resolveAbsolute wsroot b"
proof -
  obtain p where p: "take 1 p = ''/''" "resolveAbsolute wsroot a = path_normalize p"
    using resolveAbsolute_normalize [OF assms(1), of a fs] by blast
  obtain q where q: "take 1 q = ''/''" "resolveAbsolute wsroot b = path_normalize q"
    using resolveAbsolute_normalize [OF assms(1), of b fs] by blast
  show ?thesis
    using assms(2-4) unfolding p(2) q(2) by (intro path_normalize_inj [OF p(1) q(1)])
qed

section \<open>Properties of the file system\<close>

subsection \<open>Files on the disk\<close>

lemma file_in_Nil [simp]: "file_in es [] = None"
  by (simp add: file_in_def)

lemma file_in_Cons:
  "file_in es (s # ss) =
     (case map_of es s of None \<Rightarrow> None
      | Some (File c) \<Rightarrow> if ss = [] then Some c else None
      | Some (Dir es') \<Rightarrow> file_in es' ss)"
  by (simp add: file_in_def split: option.splits node.splits)

lemma lookup_single_Dir: "lookup es [s] = Some (Dir d) \<longleftrightarrow> map_of es s = Some (Dir d)"
  by (auto split: option.splits node.splits)

lemma file_in_put_other:
  "q \<noteq> p \<Longrightarrow> \<forall>d. lookup es p \<noteq> Some (Dir d)
    \<Longrightarrow> file_in (put es p (File c)) q = file_in es q"
proof (induction es p "File c" arbitrary: q rule: put.induct)
  case (1 es)
  show ?case by simp
next
  case (2 es s)
  from "2.prems"(2) have nd: "\<forall>d. map_of es s \<noteq> Some (Dir d)"
    unfolding lookup_single_Dir .
  show ?case
  proof (cases q)
    case (Cons t ts)
    show ?thesis
    proof (cases "t = s")
      case True
      with 2 Cons have "ts \<noteq> []" by auto
      then show ?thesis using nd True Cons
        by (auto simp: file_in_Cons update_conv' split: option.splits node.splits)
    next
      case False
      then show ?thesis using Cons by (simp add: file_in_Cons update_conv')
    qed
  qed simp
next
  case (3 es s s' ss)
  show ?case
  proof (cases "map_of es s")
    case None then show ?thesis by simp
  next
    case (Some n)
    show ?thesis
    proof (cases n)
      case (File x) then show ?thesis using Some by simp
    next
      case (Dir es')
      have nd: "\<forall>d. lookup es' (s' # ss) \<noteq> Some (Dir d)"
        using "3.prems"(2) Some Dir by simp
      show ?thesis
      proof (cases q)
        case (Cons t ts)
        show ?thesis
        proof (cases "t = s")
          case True
          then have "ts \<noteq> s' # ss" using "3.prems"(1) Cons by simp
          from "3.hyps" [OF Some Dir this nd] show ?thesis
            using Some Dir True Cons by (simp add: file_in_Cons update_conv')
        next
          case False
          then show ?thesis using Some Dir Cons by (simp add: file_in_Cons update_conv')
        qed
      qed simp
    qed
  qed
qed


lemma file_in_put_same:
  "p \<noteq> [] \<Longrightarrow> lookup es (butlast p) = Some (Dir d) \<Longrightarrow> file_in (put es p (File c)) p = Some c"
proof (induction es p "File c" arbitrary: d rule: put.induct)
  case (3 es s s' ss)
  from "3.prems"(2) obtain es' where m: "map_of es s = Some (Dir es')"
    and l: "lookup es' (butlast (s' # ss)) = Some (Dir d)"
    by (auto split: option.splits node.splits if_splits)
  from "3.hyps" [OF m refl _ l] show ?case
    using m by (simp add: file_in_Cons update_conv')
qed (simp_all add: file_in_Cons update_conv')

lemma file_in_remove_other:
  "q \<noteq> p \<Longrightarrow> file_in es p = Some c \<Longrightarrow> file_in (remove es p) q = file_in es q"
proof (induction es p arbitrary: q rule: remove.induct)
  case (1 es)
  show ?case by simp
next
  case (2 es s)
  then have f: "map_of es s = Some (File c)"
    by (auto simp: file_in_Cons split: option.splits node.splits)
  show ?case
  proof (cases q)
    case (Cons t ts)
    show ?thesis
    proof (cases "t = s")
      case True
      with 2 Cons have "ts \<noteq> []" by auto
      then show ?thesis using f True Cons
        by (simp add: file_in_Cons delete_conv')
    next
      case False
      then show ?thesis using Cons by (simp add: file_in_Cons delete_conv')
    qed
  qed simp
next
  case (3 es s s' ss)
  from "3.prems"(2) obtain es' where m: "map_of es s = Some (Dir es')"
    and f: "file_in es' (s' # ss) = Some c"
    by (auto simp: file_in_Cons [of es s] split: option.splits node.splits if_splits)
  show ?case
  proof (cases q)
    case (Cons t ts)
    show ?thesis
    proof (cases "t = s")
      case True
      then have "ts \<noteq> s' # ss" using "3.prems"(1) Cons by simp
      from "3.IH" [OF m refl this f] show ?thesis
        using m True Cons by (simp add: file_in_Cons update_conv')
    next
      case False
      then show ?thesis using m Cons by (simp add: file_in_Cons update_conv')
    qed
  qed simp
qed

lemma file_in_remove_same: "file_in es p = Some c \<Longrightarrow> file_in (remove es p) p = None"
proof (induction es p rule: remove.induct)
  case (3 es s s' ss)
  from "3.prems" obtain es' where m: "map_of es s = Some (Dir es')"
    and f: "file_in es' (s' # ss) = Some c"
    by (auto simp: file_in_Cons [of es s] split: option.splits node.splits if_splits)
  from "3.IH" [OF m refl f] show ?case
    using m by (simp add: file_in_Cons update_conv')
qed (simp_all add: file_in_Cons delete_conv')

lemma map_of_snoc:
  "map_of (es @ [(s, n)]) t = (case map_of es t of Some x \<Rightarrow> Some x
     | None \<Rightarrow> if t = s then Some n else None)"
  by (simp add: map_add_def split: option.splits)

lemma file_in_mkdirs: "mkdirs es p = Inr es' \<Longrightarrow> file_in es' q = file_in es q"
proof (induction es p arbitrary: es' q rule: mkdirs.induct)
  case (1 es)
  then show ?case by simp
next
  case (2 es s ss)
  show ?case
  proof (cases q)
    case Nil then show ?thesis by simp
  next
    case (Cons t ts)
    show ?thesis
    proof (cases "map_of es s")
      case None
      with "2.prems" obtain d where d: "mkdirs [] ss = Inr d" and es': "es' = es @ [(s, Dir d)]"
        by (auto split: sum.splits)
      from "2.IH"(1) [OF None d] have "file_in d ts = file_in [] ts" .
      also have "\<dots> = None" by (cases ts) (simp_all add: file_in_Cons)
      finally show ?thesis
        using None by (auto simp: Cons es' file_in_Cons map_of_snoc split: option.splits if_splits)
    next
      case (Some n)
      show ?thesis
      proof (cases n)
        case (File c)
        then show ?thesis using Some "2.prems" by simp
      next
        case (Dir d)
        with Some "2.prems" obtain d' where d': "mkdirs d ss = Inr d'"
          and es': "es' = AList.update s (Dir d') es"
          by (auto split: sum.splits)
        from "2.IH"(2) [OF Some Dir d'] have "file_in d' ts = file_in d ts" .
        then show ?thesis
          using Some Dir by (auto simp: Cons es' file_in_Cons update_conv')
      qed
    qed
  qed
qed

subsection \<open>The calls of the file system\<close>

lemma resolve_tree_update [simp]: "resolve (fs\<lparr>tree := t\<rparr>) p = resolve fs p"
  by (simp add: resolve_def)

lemma readFile_ok:
  "readFile fs p = Inr c \<Longrightarrow> file_at fs p = Some c \<and> \<not> trailing_slash p"
  by (auto simp: readFile_def file_at_def file_in_def split: if_splits option.splits node.splits)

lemma file_at_readFile:
  "file_at fs p = Some c \<Longrightarrow> readFile fs p = Inr c' \<Longrightarrow> c' = c"
  by (auto dest: readFile_ok)

lemma mkdir_ok:
  "mkdir fs d = Inr fs' \<Longrightarrow> file_at fs' q = file_at fs q"
  by (auto simp: mkdir_def file_at_def file_in_mkdirs split: if_splits sum.splits)

lemma writeFile_ok:
  assumes "writeFile fs p c = Inr fs'"
  shows "file_at fs' p = Some c" and "\<not> trailing_slash p"
    and "resolve fs q \<noteq> resolve fs p \<Longrightarrow> file_at fs' q = file_at fs q"
proof -
  from assms have ne: "resolve fs p \<noteq> []" and ts: "\<not> trailing_slash p"
    and fs': "fs' = fs\<lparr>tree := put (tree fs) (resolve fs p) (File c)\<rparr>"
    and nd: "\<forall>d. lookup (tree fs) (resolve fs p) \<noteq> Some (Dir d)"
    by (auto simp: writeFile_def split: if_splits option.splits node.splits)
  from assms obtain d where par: "lookup (tree fs) (butlast (resolve fs p)) = Some (Dir d)"
    by (auto simp: writeFile_def split: if_splits option.splits node.splits)
  show "file_at fs' p = Some c"
    using file_in_put_same [OF ne par] by (simp add: file_at_def fs')
  show "\<not> trailing_slash p" by (rule ts)
  show "file_at fs' q = file_at fs q" if "resolve fs q \<noteq> resolve fs p"
    using file_in_put_other [OF that nd] by (simp add: file_at_def fs')
qed

lemma unlink_ok:
  assumes "unlink fs p = Inr fs'"
  shows "file_at fs' p = None"
    and "resolve fs q \<noteq> resolve fs p \<Longrightarrow> file_at fs' q = file_at fs q"
proof -
  from assms obtain c where f: "file_in (tree fs) (resolve fs p) = Some c"
    and fs': "fs' = fs\<lparr>tree := remove (tree fs) (resolve fs p)\<rparr>"
    by (auto simp: unlink_def file_in_def split: if_splits option.splits node.splits)
  show "file_at fs' p = None"
    using file_in_remove_same [OF f] by (simp add: file_at_def fs')
  show "file_at fs' q = file_at fs q" if "resolve fs q \<noteq> resolve fs p"
    using file_in_remove_other [OF that f] by (simp add: file_at_def fs')
qed

lemma unlink_error: "unlink fs p = Inl e \<Longrightarrow> \<exists>code. e = SystemError code Unlink (Some p)"
  by (auto simp: unlink_def split: if_splits option.splits node.splits)

lemma readFile_error:
  "readFile fs p = Inl e
    \<Longrightarrow> (\<exists>code. e = SystemError code Open (Some p)) \<or> e = SystemError EISDIR Read None"
  by (auto simp: readFile_def split: if_splits option.splits node.splits)

lemma writeFile_error: "writeFile fs p c = Inl e \<Longrightarrow> \<exists>code. e = SystemError code Open (Some p)"
  by (auto simp: writeFile_def split: if_splits option.splits node.splits)

lemma mkdir_error: "mkdir fs p = Inl e \<Longrightarrow> \<exists>code. e = SystemError code Mkdir (Some p)"
  by (auto simp: mkdir_def split: if_splits sum.splits)

lemma fromRaw_error: "fromRaw raw = Inl e \<Longrightarrow> e = Error ''CategoryPath cannot be empty''"
  by (auto simp: fromRaw_def split: if_splits)

lemma loadNote_error:
  "loadNote wsroot rel fs = Inl e \<Longrightarrow> \<forall>code p. e \<noteq> SystemError code Unlink p"
  by (auto simp: loadNote_def deriveCategoryFromPath_def Let_def
      dest!: readFile_error fromRaw_error split: sum.splits option.splits if_splits)

lemma mkdir_resolve: "mkdir fs d = Inr fs' \<Longrightarrow> resolve fs' q = resolve fs q"
  by (auto simp: mkdir_def split: if_splits sum.splits)

lemma writeFile_resolve: "writeFile fs p c = Inr fs' \<Longrightarrow> resolve fs' q = resolve fs q"
  by (auto simp: writeFile_def split: if_splits option.splits node.splits)

lemma unlink_resolve: "unlink fs p = Inr fs' \<Longrightarrow> resolve fs' q = resolve fs q"
  by (auto simp: unlink_def split: if_splits option.splits node.splits)

lemma writeFile_keeps_files:
  assumes "writeFile fs p c = Inr fs'" and "file_at fs q \<noteq> None"
  shows "file_at fs' q \<noteq> None"
proof (cases "resolve fs q = resolve fs p")
  case True
  then have "file_at fs' q = file_at fs' p"
    using writeFile_resolve [OF assms(1)] by (simp add: file_at_def)
  then show ?thesis using writeFile_ok(1) [OF assms(1)] by simp
next
  case False
  then show ?thesis using writeFile_ok(3) [OF assms(1)] assms(2) by simp
qed

section \<open>Properties of the workspace\<close>

subsection \<open>Changing the category\<close>

lemma applyCategoryChange_steps:
  "applyCategoryChange wsroot notePath newCategory fs =
     (case readFile fs (old_path wsroot notePath) of
        Inl e \<Rightarrow> (Inl e, fs)
      | Inr raw \<Rightarrow>
          (case mkdir fs (path_dirname (new_path wsroot notePath newCategory)) of
             Inl e \<Rightarrow> (Inl e, fs)
           | Inr fs1 \<Rightarrow>
               (case writeFile fs1 (new_path wsroot notePath newCategory)
                       (new_content raw newCategory) of
                  Inl e \<Rightarrow> (Inl e, fs1)
                | Inr fs2 \<Rightarrow>
                    (case (if new_path wsroot notePath newCategory \<noteq> old_path wsroot notePath
                           then unlink fs2 (old_path wsroot notePath) else Inr fs2) of
                       Inl e \<Rightarrow> (Inl e, fs2)
                     | Inr fs3 \<Rightarrow> (loadNote wsroot (new_rel notePath newCategory) fs3, fs3)))))"
  unfolding applyCategoryChange_def Let_def old_path_def new_path_def new_rel_def
    new_content_def by (rule refl)

lemma path_normalize_absolute_hd: "take 1 p = ''/'' \<Longrightarrow> take 1 (path_normalize p) = ''/''"
  by (simp add: path_normalize_absolute Let_def)

lemma resolveAbsolute_absolute:
  "take 1 wsroot = ''/'' \<Longrightarrow> take 1 (resolveAbsolute wsroot rel) = ''/''"
  using resolveAbsolute_normalize [of wsroot rel undefined] path_normalize_absolute_hd by auto

lemma resolve_absolute_any: "take 1 p = ''/'' \<Longrightarrow> resolve fs p = resolve fs' p"
  by (simp add: resolve_absolute)

text \<open>
  The order of the calls. The old file of the note is on the disk before the call.
  Whatever the call returns: when the old file is gone afterwards, the string of the new
  path differs from the string of the old one and the disk is what \<open>unlink\<close> of the old
  file leaves after \<open>mkdir\<close> and the write of the new file have succeeded, in this order;
  and when the call fails in \<open>unlink\<close>, after the write and before the deletion, a file
  is on the disk at the old path and the new file with the new content is on the disk at
  the new path.
\<close>

lemma applyCategoryChange_order:
  assumes run: "applyCategoryChange wsroot notePath newCategory fs = (r, fs')"
    and old: "file_at fs (old_path wsroot notePath) = Some raw"
  shows "(file_at fs' (old_path wsroot notePath) = None \<longrightarrow>
            new_path wsroot notePath newCategory \<noteq> old_path wsroot notePath
            \<and> (\<exists>fs1 fs2. mkdir fs (path_dirname (new_path wsroot notePath newCategory)) = Inr fs1
                  \<and> writeFile fs1 (new_path wsroot notePath newCategory)
                        (new_content raw newCategory) = Inr fs2
                  \<and> unlink fs2 (old_path wsroot notePath) = Inr fs'))
    \<and> ((\<exists>code p. r = Inl (SystemError code Unlink p)) \<longrightarrow>
            file_at fs' (old_path wsroot notePath) \<noteq> None
            \<and> file_at fs' (new_path wsroot notePath newCategory)
                = Some (new_content raw newCategory))"
proof -
  let ?old = "old_path wsroot notePath"
  let ?new = "new_path wsroot notePath newCategory"
  let ?c = "new_content raw newCategory"
  note steps = run [unfolded applyCategoryChange_steps]
  show ?thesis
  proof (cases "readFile fs ?old")
    case (Inl e)
    then show ?thesis using steps old by (auto dest: readFile_error)
  next
    case (Inr raw')
    then have raw': "raw' = raw" using old by (auto dest: readFile_ok)
    show ?thesis
    proof (cases "mkdir fs (path_dirname ?new)")
      case (Inl e)
      then show ?thesis using steps Inr old by (auto dest: mkdir_error)
    next
      case mk: (Inr fs1)
      have f1: "file_at fs1 ?old = Some raw" using mkdir_ok [OF mk] old by simp
      show ?thesis
      proof (cases "writeFile fs1 ?new ?c")
        case (Inl e)
        then show ?thesis using steps Inr mk f1 raw' by (auto dest: writeFile_error)
      next
        case wr: (Inr fs2)
        have w_new: "file_at fs2 ?new = Some ?c" using writeFile_ok(1) [OF wr] .
        have w_old: "file_at fs2 ?old \<noteq> None"
          using writeFile_keeps_files [OF wr] f1 by simp
        show ?thesis
        proof (cases "?new = ?old")
          case True
          then have "fs' = fs2" and "r = loadNote wsroot (new_rel notePath newCategory) fs2"
            using steps Inr mk wr raw' by auto
          then show ?thesis using w_old by (auto dest: loadNote_error)
        next
          case False
          show ?thesis
          proof (cases "unlink fs2 ?old")
            case (Inl e)
            then have "fs' = fs2" using steps Inr mk wr raw' False by auto
            then show ?thesis using w_old w_new by auto
          next
            case un: (Inr fs3)
            then have "fs' = fs3" and "r = loadNote wsroot (new_rel notePath newCategory) fs3"
              using steps Inr mk wr raw' False by auto
            then show ?thesis using False mk wr un by (auto dest: loadNote_error)
          qed
        qed
      qed
    qed
  qed
qed

text \<open>The system refuses the deletion: both files are on the disk and the error is returned.\<close>

lemma applyCategoryChange_unlink_refused:
  "applyCategoryChange ''/ws'' ''inbox/idea.md'' (CategoryPath ''AI'')
        (inbox_disk {(Unlink, ''/ws/inbox/idea.md'')})
      = (Inl (SystemError EACCES Unlink (Some ''/ws/inbox/idea.md'')),
         \<lparr>tree = [(''ws'', Dir [(''AI'', Dir [(''idea.md'',
                      File ''---\<newline>category: AI\<newline>---\<newline>\<newline># Idea'')]),
                    (''inbox'', Dir [(''idea.md'', File ''# Idea'')])])],
          cwd = [], denied = {(Unlink, ''/ws/inbox/idea.md'')}\<rparr>)"
  by code_simp

text \<open>
  C5. The old file is to be deleted only when the new absolute path differs from the old
  one, so that a note whose destination is its source is not deleted. The guard of
  \<open>applyCategoryChange\<close> compares the two strings that \<open>path.join\<close> makes from the
  workspace root, and under a relative root these are not absolute paths. With the
  root \<open>.\<close> in the working directory \<open>/ws\<close>, the note \<open>../ws/inbox/idea.md\<close> and its own
  category \<open>inbox\<close>, the old path \<open>../ws/inbox/idea.md\<close> and the new path
  \<open>inbox/idea.md\<close> are two strings for one file: the note is written, then deleted, the
  call fails with \<open>ENOENT\<close> when it loads the note again, and the directory is left empty.
\<close>

theorem applyCategoryChange_self_deletion:
  "file_at relative_disk (old_path ''.'' ''../ws/inbox/idea.md'')
      = Some ''---\<newline>category: inbox\<newline>---\<newline># Idea''
   \<and> old_path ''.'' ''../ws/inbox/idea.md'' = ''../ws/inbox/idea.md''
   \<and> new_path ''.'' ''../ws/inbox/idea.md'' (CategoryPath ''inbox'') = ''inbox/idea.md''
   \<and> resolve relative_disk (new_path ''.'' ''../ws/inbox/idea.md'' (CategoryPath ''inbox''))
      = resolve relative_disk (old_path ''.'' ''../ws/inbox/idea.md'')
   \<and> applyCategoryChange ''.'' ''../ws/inbox/idea.md'' (CategoryPath ''inbox'') relative_disk
      = (Inl (SystemError ENOENT Open (Some ''inbox/idea.md'')),
         \<lparr>tree = [(''ws'', Dir [(''inbox'', Dir [])])], cwd = [''ws''], denied = {}\<rparr>)"
  by code_simp

text \<open>
  Under an absolute workspace root two different paths name two different files, so the
  new file is still there once the old one is deleted, and the old file has its old
  content when \<open>unlink\<close> fails.
\<close>

lemma applyCategoryChange_absolute_root:
  assumes abs: "take 1 wsroot = ''/''"
    and run: "applyCategoryChange wsroot notePath newCategory fs = (r, fs')"
    and old: "file_at fs (old_path wsroot notePath) = Some raw"
  shows "(file_at fs' (old_path wsroot notePath) = None \<longrightarrow>
            new_path wsroot notePath newCategory \<noteq> old_path wsroot notePath
            \<and> file_at fs' (new_path wsroot notePath newCategory)
                = Some (new_content raw newCategory))
    \<and> ((\<exists>code p. r = Inl (SystemError code Unlink p)) \<longrightarrow>
            file_at fs' (old_path wsroot notePath) = Some raw
            \<and> file_at fs' (new_path wsroot notePath newCategory)
                = Some (new_content raw newCategory))"
proof -
  let ?old = "old_path wsroot notePath"
  let ?new = "new_path wsroot notePath newCategory"
  let ?c = "new_content raw newCategory"
  have aold: "take 1 ?old = ''/''" and anew: "take 1 ?new = ''/''"
    unfolding old_path_def new_path_def by (rule resolveAbsolute_absolute [OF abs])+
  note steps = run [unfolded applyCategoryChange_steps]
  show ?thesis
  proof (cases "readFile fs ?old")
    case (Inl e)
    then show ?thesis using steps old by (auto dest: readFile_error)
  next
    case (Inr raw')
    then have raw': "raw' = raw" and ts_old: "\<not> trailing_slash ?old"
      using old by (auto dest: readFile_ok)
    show ?thesis
    proof (cases "mkdir fs (path_dirname ?new)")
      case (Inl e)
      then show ?thesis using steps Inr old by (auto dest: mkdir_error)
    next
      case mk: (Inr fs1)
      have f1: "file_at fs1 ?old = Some raw" using mkdir_ok [OF mk] old by simp
      show ?thesis
      proof (cases "writeFile fs1 ?new ?c")
        case (Inl e)
        then show ?thesis using steps Inr mk f1 raw' by (auto dest: writeFile_error)
      next
        case wr: (Inr fs2)
        have w_new: "file_at fs2 ?new = Some ?c" and ts_new: "\<not> trailing_slash ?new"
          using writeFile_ok(1,2) [OF wr] by simp_all
        show ?thesis
        proof (cases "?new = ?old")
          case True
          then have "fs' = fs2" and "r = loadNote wsroot (new_rel notePath newCategory) fs2"
            using steps Inr mk wr raw' by auto
          then show ?thesis using w_new True by (auto dest: loadNote_error)
        next
          case False
          have "resolve fs1 ?old \<noteq> resolve fs1 ?new"
          proof
            assume "resolve fs1 ?old = resolve fs1 ?new"
            then have "?old = ?new"
              unfolding old_path_def new_path_def
              using ts_old ts_new unfolding old_path_def new_path_def
              by (intro resolveAbsolute_inj [OF abs])
            with False show False by simp
          qed
          then have w_old: "file_at fs2 ?old = Some raw"
            using writeFile_ok(3) [OF wr] f1 by simp
          have r12: "resolve fs2 ?new \<noteq> resolve fs2 ?old"
            using \<open>resolve fs1 ?old \<noteq> resolve fs1 ?new\<close>
              resolve_absolute_any [OF aold, of fs2 fs1] resolve_absolute_any [OF anew, of fs2 fs1]
            by simp
          show ?thesis
          proof (cases "unlink fs2 ?old")
            case (Inl e)
            then have "fs' = fs2" using steps Inr mk wr raw' False by auto
            then show ?thesis using w_old w_new by simp
          next
            case un: (Inr fs3)
            then have "fs' = fs3" and "r = loadNote wsroot (new_rel notePath newCategory) fs3"
              using steps Inr mk wr raw' False by auto
            moreover have "file_at fs3 ?new = Some ?c"
              using unlink_ok(2) [OF un r12] w_new by simp
            ultimately show ?thesis using False by (auto dest: loadNote_error)
          qed
        qed
      qed
    qed
  qed
qed

text \<open>Without a refusal the note is moved: the new file is there and the old one is gone.\<close>

lemma applyCategoryChange_moves:
  "applyCategoryChange ''/ws'' ''inbox/idea.md'' (CategoryPath ''AI'') (inbox_disk {})
    = (Inr \<lparr>id' = ''AI/idea.md'', title = ''Idea'', content = ''\<newline># Idea'',
            category = Some (CategoryPath ''AI''), path = ''AI/idea.md''\<rparr>,
       \<lparr>tree = [(''ws'', Dir [(''AI'', Dir [(''idea.md'',
                      File ''---\<newline>category: AI\<newline>---\<newline>\<newline># Idea'')]),
                    (''inbox'', Dir [])])],
          cwd = [], denied = {}\<rparr>)"
  by code_simp

text \<open>The destination is the source: the file is rewritten and not deleted.\<close>

lemma applyCategoryChange_same_place:
  "applyCategoryChange ''/ws'' ''inbox/idea.md'' (CategoryPath ''inbox'') (inbox_disk {})
    = (Inr \<lparr>id' = ''inbox/idea.md'', title = ''Idea'', content = ''\<newline># Idea'',
            category = Some (CategoryPath ''inbox''), path = ''inbox/idea.md''\<rparr>,
       \<lparr>tree = [(''ws'', Dir [(''AI'', Dir []), (''inbox'', Dir [(''idea.md'',
                      File ''---\<newline>category: inbox\<newline>---\<newline>\<newline># Idea'')])])],
          cwd = [], denied = {}\<rparr>)"
  by code_simp

subsection \<open>Directory trees\<close>

























subsection \<open>The walk\<close>












text \<open>The same directories in another order of enumeration give the same set.\<close>

lemma listCategories_other_order:
  "map_option (map_sum id set) (listCategories 3 ''/ws''
     (example_disk\<lparr>tree := [(''ws'', Dir [(''Product'', Dir []),
        (''AI'', Dir [(''Agents'', Dir [(''note.md'', File ''# Note'')])])])]\<rparr>))
   = Some (Inr {CategoryPath ''AI'', CategoryPath ''AI/Agents'', CategoryPath ''Product''})"
  by code_simp


section \<open>Properties of the use case\<close>

text \<open>
  C6. When the note loads, the categories are listed, and the categorizer suggests a
  category whose string is the string of the note's current category (the empty string
  when the note has none), \<open>execute\<close> returns \<open>wasMoved = false\<close> with the loaded note
  as the original and as the updated note, and the file system is the one it started
  from: nothing was written.
\<close>

theorem execute_noop:
  assumes "loadNote wsroot relativePath fs = Inr note"
    and "listCategories n wsroot fs = Some (Inr cats)"
    and "suggestCategory note cats = Inr decision"
    and "toString (suggestedCategory decision)
          = (case category note of None \<Rightarrow> [] | Some c \<Rightarrow> toString c)"
  shows "execute n wsroot suggestCategory relativePath fs
    = Some (Inr \<lparr>originalNote = note, updatedNote = note, wasMoved = False,
                  reasoning' = reasoning decision\<rparr>, fs)"
  using assms by (simp add: execute_def Let_def)

theorem execute_noop_witness:
  "loadNote ''/ws'' ''AI/Agents/note.md'' example_disk
     = Inr \<lparr>id' = ''AI/Agents/note.md'', title = ''Note'', content = ''# Note'',
            category = Some (CategoryPath ''AI/Agents''), path = ''AI/Agents/note.md''\<rparr>
   \<and> listCategories 3 ''/ws'' example_disk
     = Some (Inr [CategoryPath ''AI'', CategoryPath ''AI/Agents'', CategoryPath ''Product''])
   \<and> (\<lambda>note cats. Inr \<lparr>suggestedCategory = CategoryPath ''AI/Agents'', reasoning = ''agents''\<rparr>)
        \<lparr>id' = ''AI/Agents/note.md'', title = ''Note'', content = ''# Note'',
            category = Some (CategoryPath ''AI/Agents''), path = ''AI/Agents/note.md''\<rparr>
        [CategoryPath ''AI'', CategoryPath ''AI/Agents'', CategoryPath ''Product'']
     = (Inr \<lparr>suggestedCategory = CategoryPath ''AI/Agents'', reasoning = ''agents''\<rparr>
          :: error + CategorizationDecision)
   \<and> toString (suggestedCategory \<lparr>suggestedCategory = CategoryPath ''AI/Agents'', reasoning = ''agents''\<rparr>)
     = (case category \<lparr>id' = ''AI/Agents/note.md'', title = ''Note'', content = ''# Note'',
            category = Some (CategoryPath ''AI/Agents''), path = ''AI/Agents/note.md''\<rparr>
        of None \<Rightarrow> [] | Some c \<Rightarrow> toString c)
   \<and> execute 3 ''/ws''
        (\<lambda>note cats. Inr \<lparr>suggestedCategory = CategoryPath ''AI/Agents'', reasoning = ''agents''\<rparr>)
        ''AI/Agents/note.md'' example_disk
     = Some (Inr \<lparr>originalNote = \<lparr>id' = ''AI/Agents/note.md'', title = ''Note'',
                    content = ''# Note'', category = Some (CategoryPath ''AI/Agents''),
                    path = ''AI/Agents/note.md''\<rparr>,
                  updatedNote = \<lparr>id' = ''AI/Agents/note.md'', title = ''Note'',
                    content = ''# Note'', category = Some (CategoryPath ''AI/Agents''),
                    path = ''AI/Agents/note.md''\<rparr>,
                  wasMoved = False,
                  reasoning' = reasoning \<lparr>suggestedCategory = CategoryPath ''AI/Agents'', reasoning = ''agents''\<rparr>\<rparr>,
             example_disk)"
proof -
  let ?note = "\<lparr>id' = ''AI/Agents/note.md'', title = ''Note'', content = ''# Note'',
            category = Some (CategoryPath ''AI/Agents''), path = ''AI/Agents/note.md''\<rparr>"
  let ?cats = "[CategoryPath ''AI'', CategoryPath ''AI/Agents'', CategoryPath ''Product'']"
  let ?d = "\<lparr>suggestedCategory = CategoryPath ''AI/Agents'', reasoning = ''agents''\<rparr>"
  let ?suggest = "\<lambda>(note :: Note) (cats :: CategoryPath list). (Inr ?d :: error + CategorizationDecision)"
  have h1: "loadNote ''/ws'' ''AI/Agents/note.md'' example_disk = Inr ?note" by code_simp
  have h2: "listCategories 3 ''/ws'' example_disk = Some (Inr ?cats)" by code_simp
  have h3: "?suggest ?note ?cats = Inr ?d" by simp
  have h4: "toString (suggestedCategory ?d)
      = (case category ?note of None \<Rightarrow> [] | Some c \<Rightarrow> toString c)" by simp
  show ?thesis
    by (rule conjI [OF h1 conjI [OF h2 conjI [OF h3 conjI [OF h4
        execute_noop [of "''/ws''" "''AI/Agents/note.md''" example_disk ?note 3 ?cats ?suggest ?d,
          OF h1 h2 h3 h4]]]]])
qed

end
